theory Spec2Isabelle
  imports Main "HOL-Library.Word" "HOL-Library.List_Lexorder"
begin

unbundle bit_operations_syntax

section \<open>The One Wire Interface (OWI.h)\<close>

text \<open>
  \<open>uint8_t\<close> and \<open>int8_t\<close> are both eight-bit words; an \<open>int8_t\<close> is read with
  \<open>sint\<close>, a \<open>uint8_t\<close> with \<open>uint\<close>. The loop counters \<open>i\<close>, \<open>j\<close> and
  \<open>count\<close> never leave \<open>0..8\<close> (resp. never overflow) and are natural numbers.
\<close>

type_synonym uint8 = "8 word"
type_synonym int8 = "8 word"

definition CHARBITS :: nat where
  "CHARBITS = 8"

definition ROM_MAX :: nat where
  "ROM_MAX = 8"

definition ROMBITS :: nat where
  "ROMBITS = ROM_MAX * CHARBITS"

text \<open>Search position sentinels (the anonymous enum of the class).\<close>

definition FIRST :: int8 where
  "FIRST = - 1"

definition ERROR :: int8 where
  "ERROR = - 1"

definition LAST :: int8 where
  "LAST = of_nat ROMBITS"

text \<open>Standard ROM commands.\<close>

definition SEARCH_ROM :: uint8 where
  "SEARCH_ROM = 0xF0"

definition READ_ROM :: uint8 where
  "READ_ROM = 0x33"

definition MATCH_ROM :: uint8 where
  "MATCH_ROM = 0x55"

definition SKIP_ROM :: uint8 where
  "SKIP_ROM = 0xCC"

definition ALARM_SEARCH :: uint8 where
  "ALARM_SEARCH = 0xEC"

definition RESET_RETRY_MAX :: uint8 where
  "RESET_RETRY_MAX = 4"

text \<open>
  The object state: the intermediate CRC sum \<open>m_crc\<close> and whatever the bus manager
  that implements the class keeps (\<open>port\<close>).
\<close>

record 'p owi =
  m_crc :: uint8
  port :: 'p

text \<open>
  The three pure virtual members \<open>reset()\<close>, \<open>read(bits)\<close> and \<open>write(value, bits)\<close>
  are implemented by a bus manager outside \<open>OWI.h\<close>; they are a parameter of every
  operation, under the names \<open>reset_bus\<close>, \<open>read_bits\<close> and \<open>write_bits\<close>. Each acts
  on the whole object (\<open>m_crc\<close> is protected, and \<open>read\<close> is documented to update the
  partial check-sum).
\<close>

record 'p driver =
  reset_bus :: "'p owi \<Rightarrow> bool \<times> 'p owi"
  read_bits :: "nat \<Rightarrow> 'p owi \<Rightarrow> uint8 \<times> 'p owi"
  write_bits :: "uint8 \<Rightarrow> nat \<Rightarrow> 'p owi \<Rightarrow> 'p owi"

subsection \<open>Buffer read and write\<close>

text \<open>\<open>while (count--) *bp++ = read();\<close> with \<open>bp\<close> the offset into the buffer.\<close>

fun read_loop :: "'p driver \<Rightarrow> nat \<Rightarrow> uint8 list \<Rightarrow> nat \<Rightarrow> 'p owi \<Rightarrow> uint8 list \<times> 'p owi" where
  "read_loop D 0 buf bp s = (buf, s)"
| "read_loop D (Suc count) buf bp s =
     (case read_bits D CHARBITS s of (v, s') \<Rightarrow> read_loop D count (buf[bp := v]) (Suc bp) s')"

text \<open>\<open>bool read(void* buf, size_t count)\<close>\<close>

definition read_buf :: "'p driver \<Rightarrow> uint8 list \<Rightarrow> nat \<Rightarrow> 'p owi \<Rightarrow> bool \<times> uint8 list \<times> 'p owi" where
  "read_buf D buf count s =
     (case read_loop D count buf 0 (s\<lparr>m_crc := 0\<rparr>) of
        (buf', s') \<Rightarrow> (m_crc s' = 0, buf', s'))"

text \<open>\<open>while (count--) write(*bp++);\<close>\<close>

fun write_loop :: "'p driver \<Rightarrow> nat \<Rightarrow> uint8 list \<Rightarrow> nat \<Rightarrow> 'p owi \<Rightarrow> 'p owi" where
  "write_loop D 0 buf bp s = s"
| "write_loop D (Suc count) buf bp s =
     write_loop D count buf (Suc bp) (write_bits D (buf ! bp) CHARBITS s)"

text \<open>\<open>void write(uint8_t value, const void* buf, size_t count)\<close>\<close>

definition write_buf :: "'p driver \<Rightarrow> uint8 \<Rightarrow> uint8 list \<Rightarrow> nat \<Rightarrow> 'p owi \<Rightarrow> 'p owi" where
  "write_buf D v buf count s = write_loop D count buf 0 (write_bits D v CHARBITS s)"

subsection \<open>The search pass\<close>

text \<open>
  The local variables of \<open>search\<close> that live across iterations of the inner loop:
  \<open>(pos, next, last, data)\<close> and the object state (the parameter \<open>last\<close> is
  written \<open>lst\<close> throughout). The comparisons \<open>pos == last\<close> and \<open>pos > last\<close> are
  made after integer promotion, \<open>pos\<close> unsigned and \<open>last\<close> signed.
\<close>

type_synonym 'p vars = "uint8 \<times> int8 \<times> int8 \<times> uint8 \<times> 'p owi"

text \<open>
  The body of the inner loop. \<open>Inl\<close> is the early \<open>return (ERROR)\<close>, carrying the object
  state at that point. A value of \<open>read(2)\<close> other than the four cases matches no case
  label: the \<open>switch\<close> is skipped.
\<close>

definition search_bit :: "'p driver \<Rightarrow> uint8 list \<Rightarrow> nat \<Rightarrow> nat \<Rightarrow> 'p vars \<Rightarrow> 'p owi + 'p vars" where
  "search_bit D code i j = (\<lambda>(pos, next, lst, data0, s0).
     let data = drop_bit 1 data0 in
     case read_bits D 2 s0 of (v, s) \<Rightarrow>
       if v = 0 then
         (if uint pos = sint lst then
            Inr (pos + 1, next, FIRST, data OR 0x80, write_bits D 1 1 s)
          else if sint lst < uint pos then
            Inr (pos + 1, pos, lst, data, write_bits D 0 1 s)
          else if (code ! i) AND (push_bit j 1) \<noteq> 0 then
            Inr (pos + 1, next, lst, data OR 0x80, write_bits D 1 1 s)
          else
            Inr (pos + 1, pos, lst, data, write_bits D 0 1 s))
       else if v = 1 then Inr (pos + 1, next, lst, data OR 0x80, write_bits D 1 1 s)
       else if v = 2 then Inr (pos + 1, next, lst, data, write_bits D 0 1 s)
       else if v = 3 then Inl s
       else Inr (pos + 1, next, lst, data, s))"

text \<open>\<open>for (uint8_t j = 0; j < 8; j++)\<close>\<close>

function for_j :: "'p driver \<Rightarrow> uint8 list \<Rightarrow> nat \<Rightarrow> nat \<Rightarrow> 'p vars \<Rightarrow> 'p owi + 'p vars" where
  "for_j D code i j v =
     (if j < 8 then
        (case search_bit D code i j v of
           Inl s \<Rightarrow> Inl s
         | Inr v' \<Rightarrow> for_j D code i (j + 1) v')
      else Inr v)"
  by pat_completeness auto
termination
  by (relation "measure (\<lambda>(D, code, i, j, v). 8 - j)") auto

declare for_j.simps [simp del]

text \<open>\<open>for (uint8_t i = 0; i < 8; i++)\<close>, then \<open>return (next)\<close>.\<close>

function for_i :: "'p driver \<Rightarrow> nat \<Rightarrow> uint8 list \<Rightarrow> uint8 \<Rightarrow> int8 \<Rightarrow> int8 \<Rightarrow> 'p owi \<Rightarrow> int8 \<times> uint8 list \<times> 'p owi" where
  "for_i D i code pos next lst s =
     (if i < 8 then
        (case for_j D code i 0 (pos, next, lst, 0, s) of
           Inl s' \<Rightarrow> (ERROR, code, s')
         | Inr (pos', next', lst', data, s') \<Rightarrow>
             for_i D (i + 1) (code[i := data]) pos' next' lst' s')
      else (next, code, s))"
  by pat_completeness auto
termination
  by (relation "measure (\<lambda>(D, i, code, pos, next, lst, s). 8 - i)") auto

declare for_i.simps [simp del]

text \<open>\<open>int8_t search(uint8_t* code, int8_t last = FIRST)\<close>\<close>

definition search :: "'p driver \<Rightarrow> uint8 list \<Rightarrow> int8 \<Rightarrow> 'p owi \<Rightarrow> int8 \<times> uint8 list \<times> 'p owi" where
  "search D code lst s = for_i D 0 code 0 LAST lst s"

subsection \<open>ROM commands\<close>

text \<open>
  \<open>int8_t search_rom(uint8_t family, uint8_t* code, int8_t last = FIRST)\<close>. The
  \<open>do ... while\<close> loop has no bound, so the function is partial: \<open>None\<close> is a call that
  does not return.
\<close>

partial_function (option) search_rom :: "'p driver \<Rightarrow> uint8 \<Rightarrow> uint8 list \<Rightarrow> int8 \<Rightarrow> 'p owi \<Rightarrow> (int8 \<times> uint8 list \<times> 'p owi) option" where
  "search_rom D family code lst s =
     (case reset_bus D s of (ok, s1) \<Rightarrow>
        if \<not> ok then Some (ERROR, code, s1)
        else
          (case search D code lst (write_bits D SEARCH_ROM CHARBITS s1) of (lst', code', s3) \<Rightarrow>
             if lst' \<noteq> LAST \<and> family \<noteq> 0 \<and> code' ! 0 \<noteq> family
             then search_rom D family code' lst' s3
             else Some (lst', code', s3)))"

declare search_rom.simps [code]

text \<open>\<open>bool read_rom(uint8_t* code)\<close>\<close>

definition read_rom :: "'p driver \<Rightarrow> uint8 list \<Rightarrow> 'p owi \<Rightarrow> bool \<times> uint8 list \<times> 'p owi" where
  "read_rom D code s =
     (case reset_bus D s of (ok, s1) \<Rightarrow>
        if \<not> ok then (False, code, s1)
        else read_buf D code ROM_MAX (write_bits D READ_ROM CHARBITS s1))"

text \<open>\<open>bool match_rom(uint8_t* code)\<close>\<close>

definition match_rom :: "'p driver \<Rightarrow> uint8 list \<Rightarrow> 'p owi \<Rightarrow> bool \<times> 'p owi" where
  "match_rom D code s =
     (case reset_bus D s of (ok, s1) \<Rightarrow>
        if \<not> ok then (False, s1)
        else (True, write_buf D MATCH_ROM code ROM_MAX s1))"

text \<open>\<open>bool skip_rom()\<close>\<close>

definition skip_rom :: "'p driver \<Rightarrow> 'p owi \<Rightarrow> bool \<times> 'p owi" where
  "skip_rom D s =
     (case reset_bus D s of (ok, s1) \<Rightarrow>
        if \<not> ok then (False, s1)
        else (True, write_bits D SKIP_ROM CHARBITS s1))"

text \<open>\<open>int8_t alarm_search(uint8_t* code, int8_t last = FIRST)\<close>\<close>

definition alarm_search :: "'p driver \<Rightarrow> uint8 list \<Rightarrow> int8 \<Rightarrow> 'p owi \<Rightarrow> int8 \<times> uint8 list \<times> 'p owi" where
  "alarm_search D code lst s =
     (case reset_bus D s of (ok, s1) \<Rightarrow>
        if \<not> ok then (ERROR, code, s1)
        else search D code lst (write_bits D ALARM_SEARCH CHARBITS s1))"

subsection \<open>The device driver base class\<close>

text \<open>
  \<open>memcpy(dst, src, n)\<close> on byte buffers: the first \<open>n\<close> bytes of \<open>dst\<close> are replaced by
  those of \<open>src\<close>.
\<close>

definition memcpy :: "uint8 list \<Rightarrow> uint8 list \<Rightarrow> nat \<Rightarrow> uint8 list" where
  "memcpy dst src n = take n src @ drop n dst"

text \<open>\<open>m_owi\<close> is a reference to the bus manager, \<open>m_rom\<close> the device address.\<close>

record 'r Device =
  m_owi :: 'r
  m_rom :: "uint8 list"

text \<open>
  The constructor \<open>Device(OWI& owi, const uint8_t* rom = NULL)\<close>. The member \<open>m_rom\<close>
  has no initialiser: \<open>mem\<close> is what the storage of the object held before, and
  \<open>None\<close> is the \<open>NULL\<close> pointer.
\<close>

definition Device_new :: "uint8 list \<Rightarrow> 'r \<Rightarrow> uint8 list option \<Rightarrow> 'r Device" where
  "Device_new mem owi rom =
     (case rom of
        None \<Rightarrow> \<lparr>m_owi = owi, m_rom = mem\<rparr>
      | Some r \<Rightarrow> \<lparr>m_owi = owi, m_rom = memcpy mem r ROM_MAX\<rparr>)"

text \<open>\<open>void rom(const uint8_t* rom)\<close>\<close>

definition rom_set :: "'r Device \<Rightarrow> uint8 list \<Rightarrow> 'r Device" where
  "rom_set dev rom = dev\<lparr>m_rom := memcpy (m_rom dev) rom ROM_MAX\<rparr>"

text \<open>\<open>const uint8_t* rom()\<close>\<close>

definition rom_get :: "'r Device \<Rightarrow> uint8 list" where
  "rom_get dev = m_rom dev"

subsection \<open>The enumeration loop of the demonstration sketch\<close>

text \<open>
  \<open>do { last = owi.search_rom(FAMILY_CODE, rom, last); if (last == owi.ERROR) break;
  ... } while (last != owi.LAST);\<close> starting from \<open>last = owi.FIRST\<close>. The body's use of
  the ROM code is recorded in \<open>found\<close>; its own bus traffic (the thermometer driver) is
  left out, each \<open>search_rom\<close> call starting with a reset. The first argument bounds
  the number of \<open>search_rom\<close> calls; \<open>None\<close> is a loop that has not finished within the
  bound, or a \<open>search_rom\<close> call that does not return.
\<close>

fun enumerate_from :: "nat \<Rightarrow> 'p driver \<Rightarrow> uint8 \<Rightarrow> uint8 list \<Rightarrow> int8 \<Rightarrow> 'p owi \<Rightarrow> uint8 list list \<Rightarrow> (uint8 list list \<times> int8 \<times> uint8 list \<times> 'p owi) option" where
  "enumerate_from 0 D family rom lst s found = None"
| "enumerate_from (Suc n) D family rom lst s found =
     (case search_rom D family rom lst s of
        None \<Rightarrow> None
      | Some (lst', rom', s') \<Rightarrow>
          if lst' = ERROR then Some (found, lst', rom', s')
          else if lst' \<noteq> LAST then enumerate_from n D family rom' lst' s' (found @ [rom'])
          else Some (found @ [rom'], lst', rom', s'))"

definition enumerate_roms :: "nat \<Rightarrow> 'p driver \<Rightarrow> uint8 \<Rightarrow> uint8 list \<Rightarrow> 'p owi \<Rightarrow> (uint8 list list \<times> int8 \<times> uint8 list \<times> 'p owi) option" where
  "enumerate_roms n D family rom s = enumerate_from n D family rom FIRST s []"

section \<open>Bus managers\<close>

subsection \<open>A simulated bus\<close>

text \<open>Bit \<open>p\<close> of a ROM code, in bus order: least significant bit first, bytes ascending.\<close>

definition rom_bit :: "uint8 list \<Rightarrow> nat \<Rightarrow> bool" where
  "rom_bit code p = bit (code ! (p div 8)) (p mod 8)"

text \<open>
  Modelled from the spec: the bus manager classes (\<open>Software/OWI.h\<close>, \<open>Hardware/OWI.h\<close>)
  and the slave devices are not part of \<open>OWI.h\<close>. The simulated bus holds the ROM codes
  of the devices on the line (\<open>devices\<close>), those still taking part in the current
  transaction (\<open>active\<close>), the bit position reached (\<open>idx\<close>) and what the devices expect
  next (\<open>mode\<close>).
\<close>

datatype mode = Idle | Command | Searching | Reading

record sim =
  devices :: "uint8 list list"
  active :: "uint8 list list"
  idx :: nat
  mode :: mode

text \<open>
  Modelled from the spec: a reset addresses all devices, which then wait for a command;
  it succeeds when at least one device answers with a presence pulse.
\<close>

definition sim_reset :: "sim \<Rightarrow> bool \<times> sim" where
  "sim_reset b = (devices b \<noteq> [], b\<lparr>active := devices b, idx := 0, mode := Command\<rparr>)"

text \<open>
  Modelled from the spec: a command byte SEARCH_ROM or READ_ROM starts the search or the
  ROM read; during a search a one-bit write keeps the devices that carry the written bit
  at the current position and moves to the next position. Any other traffic leaves the
  devices idle.
\<close>

definition sim_write :: "uint8 \<Rightarrow> nat \<Rightarrow> sim \<Rightarrow> sim" where
  "sim_write v bits b =
     (if mode b = Command \<and> bits = 8 then
        (if v = SEARCH_ROM then b\<lparr>mode := Searching\<rparr>
         else if v = READ_ROM then b\<lparr>mode := Reading\<rparr>
         else b\<lparr>mode := Idle\<rparr>)
      else if mode b = Searching \<and> bits = 1 \<and> idx b < 64 then
        b\<lparr>active := filter (\<lambda>d. rom_bit d (idx b) = bit v 0) (active b), idx := idx b + 1\<rparr>
      else b\<lparr>mode := Idle\<rparr>)"

text \<open>
  Modelled from the spec: the bits a read returns, first bit first. During a search a
  two-bit read answers, for the current position, with a first bit that is 1 when every
  device still taking part carries a 1 there and a second bit that is 1 when every one of
  them carries a 0 (so \<open>0b00\<close> is a discrepancy, \<open>0b01\<close> only ones, \<open>0b10\<close> only zeros
  and \<open>0b11\<close> no device). During a ROM read a byte read returns the wired-and of the
  next ROM byte of the devices. An idle line reads ones.
\<close>

definition sim_read :: "nat \<Rightarrow> sim \<Rightarrow> bool list \<times> sim" where
  "sim_read bits b =
     (if mode b = Searching \<and> bits = 2 \<and> idx b < 64 then
        ([\<forall>d\<in>set (active b). rom_bit d (idx b), \<forall>d\<in>set (active b). \<not> rom_bit d (idx b)], b)
      else if mode b = Reading \<and> bits = 8 \<and> idx b + 8 \<le> 64 then
        (map (\<lambda>k. \<forall>d\<in>set (active b). rom_bit d (idx b + k)) [0..<8], b\<lparr>idx := idx b + 8\<rparr>)
      else (replicate bits True, b\<lparr>mode := Idle\<rparr>))"

text \<open>
  Modelled from the spec: the bus manager over the simulated bus. The value read is
  assembled least significant bit first, and every bit read updates the CRC sum with the
  check function \<open>upd\<close> of the bus manager, which is a parameter.
\<close>

definition sim_bus :: "(bool \<Rightarrow> uint8 \<Rightarrow> uint8) \<Rightarrow> sim driver" where
  "sim_bus upd =
     \<lparr>reset_bus = (\<lambda>s. case sim_reset (port s) of (ok, b) \<Rightarrow> (ok, s\<lparr>port := b\<rparr>)),
      read_bits = (\<lambda>bits s. case sim_read bits (port s) of
                     (bs, b) \<Rightarrow> (horner_sum of_bool 2 bs, \<lparr>m_crc = fold upd bs (m_crc s), port = b\<rparr>)),
      write_bits = (\<lambda>v bits s. s\<lparr>port := sim_write v bits (port s)\<rparr>)\<rparr>"

text \<open>
  Modelled from the spec: the incremental check function of the bus manager, which is
  not part of \<open>OWI.h\<close>. The spec asks only that a block followed by its CRC8 byte
  drives the sum back to 0; this is the bitwise CRC8 of the ROM codes (reflected
  polynomial \<open>0x8C\<close>), used where a concrete check function is needed.
\<close>

definition crc8_bit :: "bool \<Rightarrow> uint8 \<Rightarrow> uint8" where
  "crc8_bit b crc = (if bit crc 0 \<noteq> b then drop_bit 1 crc XOR 0x8C else drop_bit 1 crc)"

subsection \<open>A replaying bus\<close>

text \<open>
  A bus manager that replays a recorded line: every reset sees a presence pulse, every
  read returns the next recorded value (an idle line, all ones, when the recording is
  exhausted), and writes have no effect on it.
\<close>

definition replay_bus :: "uint8 list driver" where
  "replay_bus =
     \<lparr>reset_bus = (\<lambda>s. (True, s)),
      read_bits = (\<lambda>bits s. case port s of [] \<Rightarrow> (mask bits, s) | v # vs \<Rightarrow> (v, s\<lparr>port := vs\<rparr>)),
      write_bits = (\<lambda>v bits s. s)\<rparr>"

subsection \<open>Recording the traffic of a bus manager\<close>

text \<open>
  \<open>traced D\<close> behaves as \<open>D\<close> and appends every call of a virtual member to a log kept
  beside the state of \<open>D\<close>.
\<close>

datatype event = EReset bool | ERead nat uint8 | EWrite uint8 nat

definition untrace :: "('p \<times> event list) owi \<Rightarrow> 'p owi" where
  "untrace s = \<lparr>m_crc = m_crc s, port = fst (port s)\<rparr>"

definition retrace :: "'p owi \<Rightarrow> event list \<Rightarrow> ('p \<times> event list) owi" where
  "retrace s l = \<lparr>m_crc = m_crc s, port = (port s, l)\<rparr>"

definition log_of :: "('p \<times> event list) owi \<Rightarrow> event list" where
  "log_of s = snd (port s)"

definition traced :: "'p driver \<Rightarrow> ('p \<times> event list) driver" where
  "traced D =
     \<lparr>reset_bus = (\<lambda>s. case reset_bus D (untrace s) of
                     (ok, s') \<Rightarrow> (ok, retrace s' (log_of s @ [EReset ok]))),
      read_bits = (\<lambda>bits s. case read_bits D bits (untrace s) of
                     (v, s') \<Rightarrow> (v, retrace s' (log_of s @ [ERead bits v]))),
      write_bits = (\<lambda>v bits s. retrace (write_bits D v bits (untrace s)) (log_of s @ [EWrite v bits]))\<rparr>"

text \<open>The values read and the values written, in order.\<close>

fun responses :: "event list \<Rightarrow> uint8 list" where
  "responses [] = []"
| "responses (ERead n v # es) = v # responses es"
| "responses (e # es) = responses es"

fun writes :: "event list \<Rightarrow> uint8 list" where
  "writes [] = []"
| "writes (EWrite v n # es) = v # writes es"
| "writes (e # es) = writes es"

section \<open>Auxiliary notions\<close>

subsection \<open>The search pass as one loop over the 64 positions\<close>

text \<open>
  The two nested loops of \<open>search\<close> visit the positions \<open>0..63\<close> in order. \<open>flat\<close> is
  the same pass as a single loop that collects the chosen bits in a list instead of
  shifting them into \<open>data\<close>; \<open>store_bytes\<close> packs the list into the code buffer. The
  equivalence with \<open>search\<close> is lemma \<open>search_flat\<close>.
\<close>

type_synonym 'p fvars = "int8 \<times> int8 \<times> 'p owi \<times> bool list"

definition flat_step :: "'p driver \<Rightarrow> uint8 list \<Rightarrow> nat \<Rightarrow> 'p fvars \<Rightarrow> 'p owi + 'p fvars" where
  "flat_step D code p = (\<lambda>(lst, next, s0, bs).
     case read_bits D 2 s0 of (v, s) \<Rightarrow>
       if v = 0 then
         (if int p = sint lst then Inr (FIRST, next, write_bits D 1 1 s, bs @ [True])
          else if sint lst < int p then Inr (lst, of_nat p, write_bits D 0 1 s, bs @ [False])
          else if rom_bit code p then Inr (lst, next, write_bits D 1 1 s, bs @ [True])
          else Inr (lst, of_nat p, write_bits D 0 1 s, bs @ [False]))
       else if v = 1 then Inr (lst, next, write_bits D 1 1 s, bs @ [True])
       else if v = 2 then Inr (lst, next, write_bits D 0 1 s, bs @ [False])
       else if v = 3 then Inl s
       else Inr (lst, next, s, bs @ [False]))"

fun flat :: "'p driver \<Rightarrow> uint8 list \<Rightarrow> nat \<Rightarrow> 'p fvars \<Rightarrow> 'p owi + 'p fvars" where
  "flat D code 0 v = Inr v"
| "flat D code (Suc n) v =
     (case flat D code n v of Inl s \<Rightarrow> Inl s | Inr v' \<Rightarrow> flat_step D code n v')"

definition byte_at :: "bool list \<Rightarrow> nat \<Rightarrow> uint8" where
  "byte_at bs i = horner_sum of_bool 2 (take 8 (drop (8 * i) bs))"

fun store_bytes :: "nat \<Rightarrow> bool list \<Rightarrow> uint8 list \<Rightarrow> uint8 list" where
  "store_bytes 0 bs c = c"
| "store_bytes (Suc i) bs c = (store_bytes i bs c)[i := byte_at bs i]"

subsection \<open>Device sets as binary tries\<close>

text \<open>
  Two codes agree up to \<open>p\<close> when their bits below \<open>p\<close> coincide. Position \<open>p\<close> is a
  discrepancy on the path of \<open>t\<close> when, among the devices that agree with \<open>t\<close> up to
  \<open>p\<close>, both bit values occur. \<open>zero_taken S t n\<close> is the deepest discrepancy below \<open>n\<close>
  on the path of \<open>t\<close> at which \<open>t\<close> carries a 0, or \<open>LAST\<close>. \<open>key\<close> lists the 64 bits of
  a code in bus order; codes are compared by the lexicographic order of their keys.
\<close>

definition agree :: "uint8 list \<Rightarrow> uint8 list \<Rightarrow> nat \<Rightarrow> bool" where
  "agree c d p = (\<forall>q<p. rom_bit c q = rom_bit d q)"

definition disc :: "uint8 list set \<Rightarrow> uint8 list \<Rightarrow> nat \<Rightarrow> bool" where
  "disc S t p = ((\<exists>d\<in>S. agree t d p \<and> rom_bit d p) \<and> (\<exists>d\<in>S. agree t d p \<and> \<not> rom_bit d p))"

definition choice :: "int8 \<Rightarrow> uint8 list \<Rightarrow> nat \<Rightarrow> bool" where
  "choice lst code p =
     (if int p = sint lst then True else if sint lst < int p then False else rom_bit code p)"

fun zero_taken :: "uint8 list set \<Rightarrow> uint8 list \<Rightarrow> nat \<Rightarrow> int8" where
  "zero_taken S t 0 = LAST"
| "zero_taken S t (Suc n) = (if disc S t n \<and> \<not> rom_bit t n then of_nat n else zero_taken S t n)"

definition key :: "uint8 list \<Rightarrow> bool list" where
  "key c = map (rom_bit c) [0..<64]"

text \<open>
  \<open>search_rom\<close> leaves its loop after a pass that produced the code \<open>d\<close> when that pass
  returned LAST, the family argument is 0, or the first byte of \<open>d\<close> is the family.
\<close>

definition stops :: "uint8 list set \<Rightarrow> uint8 \<Rightarrow> uint8 list \<Rightarrow> bool" where
  "stops S family d = (zero_taken S d 64 = LAST \<or> family = 0 \<or> d ! 0 = family)"

subsection \<open>Successive byte reads\<close>

text \<open>\<open>read_seq D n s\<close> performs \<open>n\<close> byte reads one after the other and lists the values.\<close>

fun read_seq :: "'p driver \<Rightarrow> nat \<Rightarrow> 'p owi \<Rightarrow> uint8 list \<times> 'p owi" where
  "read_seq D 0 s = ([], s)"
| "read_seq D (Suc n) s =
     (case read_bits D 8 s of (v, s1) \<Rightarrow>
        case read_seq D n s1 of (vs, s2) \<Rightarrow> (v # vs, s2))"

subsection \<open>A pass resumed inside a byte\<close>


subsection \<open>Example buses\<close>

text \<open>
  Three devices whose ROM codes differ in the first two bits, on a bus that has been reset
  and has received SEARCH_ROM.
\<close>

abbreviation rom_00 :: "uint8 list" where
  "rom_00 \<equiv> [0, 0, 0, 0, 0, 0, 0, 0]"

abbreviation rom_02 :: "uint8 list" where
  "rom_02 \<equiv> [2, 0, 0, 0, 0, 0, 0, 0]"

abbreviation rom_01 :: "uint8 list" where
  "rom_01 \<equiv> [1, 0, 0, 0, 0, 0, 0, 0]"

abbreviation three_devices :: "sim owi" where
  "three_devices \<equiv>
     \<lparr>m_crc = 0,
      port = \<lparr>devices = [rom_00, rom_02, rom_01], active = [rom_00, rom_02, rom_01],
              idx = 0, mode = Searching\<rparr>\<rparr>"

text \<open>
  A recorded line: one pair \<open>0b11\<close>, then the 64 pairs that the single device
  \<open>28 01 02 03 04 05 06 9E\<close> answers (\<open>0b01\<close> for a 1, \<open>0b10\<close> for a 0).
\<close>

abbreviation device_28_pairs :: "uint8 list" where
  "device_28_pairs \<equiv>
     [2, 2, 2, 1, 2, 1, 2, 2,  1, 2, 2, 2, 2, 2, 2, 2,  2, 1, 2, 2, 2, 2, 2, 2,
      1, 1, 2, 2, 2, 2, 2, 2,  2, 2, 1, 2, 2, 2, 2, 2,  1, 2, 1, 2, 2, 2, 2, 2,
      2, 1, 1, 2, 2, 2, 2, 2,  2, 1, 1, 1, 1, 2, 2, 1]"

section \<open>Verification\<close>

subsection \<open>The nested loops and the single loop\<close>

lemma flat_Inl_mono: "flat D code n v = Inl s \<Longrightarrow> n \<le> m \<Longrightarrow> flat D code m v = Inl s"
proof (induction m)
  case 0 then show ?case by simp
next
  case (Suc m)
  show ?case
  proof (cases "n = Suc m")
    case True with Suc.prems show ?thesis by simp
  next
    case False
    with Suc.prems have "n \<le> m" by simp
    with Suc have "flat D code m v = Inl s" by simp
    then show ?thesis by simp
  qed
qed

lemma flat_step_bits:
  "flat_step D code p (l, nx, s, bs) = Inr (l', nx', s', bs') \<Longrightarrow> \<exists>b. bs' = bs @ [b]"
  by (auto simp: flat_step_def split: prod.splits if_splits)

lemma flat_bits:
  "flat D code n (l0, nx0, s0, []) = Inr (l, nx, s, bs) \<Longrightarrow> length bs = n"
proof (induction n arbitrary: l nx s bs)
  case 0 then show ?case by simp
next
  case (Suc n)
  then obtain l1 nx1 s1 bs1 where f: "flat D code n (l0, nx0, s0, []) = Inr (l1, nx1, s1, bs1)"
    and st: "flat_step D code n (l1, nx1, s1, bs1) = Inr (l, nx, s, bs)"
    by (auto split: sum.splits)
  from Suc.IH[OF f] flat_step_bits[OF st] show ?case by auto
qed

lemma flat_prefix:
  "flat D code (n + k) v0 = Inr (l', nx', s', bs') \<Longrightarrow>
   \<exists>l nx s bs. flat D code n v0 = Inr (l, nx, s, bs) \<and> (\<exists>cs. bs' = bs @ cs)"
proof (induction k arbitrary: l' nx' s' bs')
  case 0 then show ?case by auto
next
  case (Suc k)
  then obtain l1 nx1 s1 bs1 where f: "flat D code (n + k) v0 = Inr (l1, nx1, s1, bs1)"
    and st: "flat_step D code (n + k) (l1, nx1, s1, bs1) = Inr (l', nx', s', bs')"
    by (auto split: sum.splits)
  from Suc.IH[OF f] flat_step_bits[OF st] show ?case by auto
qed

lemma uint_pos: "p < 256 \<Longrightarrow> uint (of_nat p :: uint8) = int p"
  by (simp add: unsigned_of_nat take_bit_nat_eq_self)

lemma search_bit_flat:
  assumes "p = 8 * i + j" "j < 8" "i < 8" "code ! i = code0 ! i"
  shows "search_bit D code i j (of_nat p, nx, l, data, s) =
    (case flat_step D code0 p (l, nx, s, bs) of
       Inl s' \<Rightarrow> Inl s'
     | Inr (l', nx', s', bs') \<Rightarrow>
         Inr (of_nat (Suc p), nx', l', drop_bit 1 data OR (if last bs' then 0x80 else 0), s'))"
proof -
  have p: "p < 256" using assms by simp
  have rb: "rom_bit code0 p = bit (code ! i) j"
    using assms by (simp add: rom_bit_def)
  show ?thesis
    by (simp add: search_bit_def flat_step_def uint_pos[OF p] rb and_exp_eq_0_iff_not_bit Let_def
        split: prod.splits)
qed

lemma bit_0x80: "bit (0x80 :: uint8) n = (n = 7)"
proof -
  have "(0x80 :: uint8) = 2 ^ 7" by simp
  then show ?thesis by (simp only: bit_exp_iff) (auto simp: possible_bit_def)
qed

lemma bit_128_int: "bit (128 :: int) n = (n = 7)"
proof -
  have "(128 :: int) = 2 ^ 7" by simp
  then show ?thesis by (simp only: bit_exp_iff) (auto simp: possible_bit_def)
qed

lemma flat_Suc_Inr:
  "flat D code n v0 = Inr v \<Longrightarrow> flat D code (Suc n) v0 = flat_step D code n v"
  by simp

lemma for_j_flat:
  assumes "i < 8"
  shows "j \<le> 8 \<Longrightarrow> flat D code0 (8 * i + j) v0 = Inr (l, nx, s, bs) \<Longrightarrow> length bs = 8 * i + j \<Longrightarrow>
    code ! i = code0 ! i \<Longrightarrow> (\<forall>m<j. bit data (8 - j + m) = bs ! (8 * i + m)) \<Longrightarrow>
    for_j D code i j (of_nat (8 * i + j), nx, l, data, s) =
    (case flat D code0 (8 * i + 8) v0 of
       Inl s' \<Rightarrow> Inl s'
     | Inr (l', nx', s', bs') \<Rightarrow> Inr (of_nat (8 * i + 8), nx', l', byte_at bs' i, s'))"
proof (induction "8 - j" arbitrary: j l nx s bs data)
  case 0
  then have j: "j = 8" by simp
  have "data = byte_at bs i"
  proof (rule bit_eqI)
    fix m assume "possible_bit TYPE(uint8) m"
    then have m: "m < 8" by (simp add: possible_bit_def)
    show "bit data m = bit (byte_at bs i) m"
      using 0 m j by (simp add: byte_at_def bit_horner_sum_bit_word_iff)
  qed
  with 0 j show ?case by (simp add: for_j.simps)
next
  case (Suc k)
  then have j: "j < 8" by simp
  let ?p = "8 * i + j"
  have sb: "search_bit D code i j (of_nat ?p, nx, l, data, s) =
    (case flat_step D code0 ?p (l, nx, s, bs) of
       Inl s' \<Rightarrow> Inl s'
     | Inr (l', nx', s', bs') \<Rightarrow>
         Inr (of_nat (Suc ?p), nx', l', drop_bit 1 data OR (if last bs' then 0x80 else 0), s'))"
    using search_bit_flat[OF refl j assms Suc.prems(4)] .
  have fs: "flat D code0 (Suc ?p) v0 = flat_step D code0 ?p (l, nx, s, bs)"
    using Suc.prems(2) by simp
  show ?case
  proof (cases "flat_step D code0 ?p (l, nx, s, bs)")
    case (Inl s')
    with fs have "flat D code0 (Suc ?p) v0 = Inl s'" by simp
    from flat_Inl_mono[OF this, of "8 * i + 8"] j have "flat D code0 (8 * i + 8) v0 = Inl s'" by simp
    with Inl sb j show ?thesis by (simp add: for_j.simps[of D code i j])
  next
    case (Inr v')
    obtain l' nx' s' bs' where v': "v' = (l', nx', s', bs')" by (cases v') auto
    from flat_step_bits[OF Inr[unfolded v']] obtain b where bs': "bs' = bs @ [b]" by auto
    let ?data = "drop_bit 1 data OR (if b then 0x80 else 0)"
    have f': "flat D code0 (8 * i + (j + 1)) v0 = Inr (l', nx', s', bs')"
      using fs Inr v' by simp
    have len: "length bs' = 8 * i + (j + 1)" using bs' Suc.prems(3) by simp
    have rel: "\<forall>m<j + 1. bit ?data (8 - (j + 1) + m) = bs' ! (8 * i + m)"
    proof (intro allI impI)
      fix m assume m: "m < j + 1"
      show "bit ?data (8 - (j + 1) + m) = bs' ! (8 * i + m)"
      proof (cases "m = j")
        case True
        have "\<not> bit data 8" using bit_imp_le_length[of data 8] by auto
        with True j Suc.prems(3) show ?thesis
          by (cases b) (simp_all add: bs' bit_simps nth_append bit_0x80 bit_128_int)
      next
        case False
        with m have mj: "m < j" by simp
        then have "bit data (8 - j + m) = bs ! (8 * i + m)" using Suc.prems(5) by simp
        moreover have "Suc (8 - (j + 1) + m) = 8 - j + m" using j by simp
        moreover have "8 - (j + 1) + m \<noteq> 7" using mj j by simp
        ultimately show ?thesis using mj j Suc.prems(3)
          by (cases b) (simp_all add: bs' bit_simps nth_append bit_0x80 bit_128_int)
      qed
    qed
    have k: "k = 8 - (j + 1)" using Suc.hyps(2) by simp
    have IH: "for_j D code i (j + 1) (of_nat (8 * i + (j + 1)), nx', l', ?data, s') =
      (case flat D code0 (8 * i + 8) v0 of
       Inl s' \<Rightarrow> Inl s'
     | Inr (l', nx', s', bs') \<Rightarrow> Inr (of_nat (8 * i + 8), nx', l', byte_at bs' i, s'))"
      using Suc.hyps(1)[OF k _ f' len Suc.prems(4) rel] j by simp
    show ?thesis
      using sb Inr v' bs' IH j by (simp add: for_j.simps[of D code i j])
  qed
qed

lemma store_bytes_nth_ge: "i \<le> k \<Longrightarrow> store_bytes i bs c ! k = c ! k"
  by (induction i) simp_all

lemma length_store_bytes [simp]: "length (store_bytes i bs c) = length c"
  by (induction i) simp_all

lemma store_bytes_nth_lt: "k < i \<Longrightarrow> i \<le> length c \<Longrightarrow> store_bytes i bs c ! k = byte_at bs k"
  by (induction i) (auto simp: nth_list_update less_Suc_eq)

lemma byte_at_append: "8 * k + 8 \<le> length bs \<Longrightarrow> byte_at (bs @ cs) k = byte_at bs k"
  by (simp add: byte_at_def)

lemma store_bytes_append: "8 * i \<le> length bs \<Longrightarrow> store_bytes i (bs @ cs) c = store_bytes i bs c"
  by (induction i) (simp_all add: byte_at_append)

lemma for_i_flat:
  "i \<le> 8 \<Longrightarrow> flat D code0 (8 * i) (l0, nx0, s0, []) = Inr (l, nx, s, bs) \<Longrightarrow>
   code = store_bytes i bs code0 \<Longrightarrow>
   (case flat D code0 64 (l0, nx0, s0, []) of
      Inl s' \<Rightarrow> \<exists>c. for_i D i code (of_nat (8 * i)) nx l s = (ERROR, c, s')
    | Inr (l', nx', s', bs') \<Rightarrow>
        for_i D i code (of_nat (8 * i)) nx l s = (nx', store_bytes 8 bs' code0, s'))"
proof (induction "8 - i" arbitrary: i l nx s bs code)
  case 0
  then have "i = 8" by simp
  with 0 show ?case by (simp add: for_i.simps)
next
  case (Suc k)
  then have i: "i < 8" by simp
  let ?v0 = "(l0, nx0, s0, [])"
  have len: "length bs = 8 * i + 0" using flat_bits[OF Suc.prems(2)] by simp
  have ci: "code ! i = code0 ! i" using Suc.prems(3) by (simp add: store_bytes_nth_ge)
  have fj: "for_j D code i 0 (of_nat (8 * i + 0), nx, l, 0, s) =
    (case flat D code0 (8 * i + 8) ?v0 of
       Inl s' \<Rightarrow> Inl s'
     | Inr (l', nx', s', bs') \<Rightarrow> Inr (of_nat (8 * i + 8), nx', l', byte_at bs' i, s'))"
    using Suc.prems(2) by (intro for_j_flat[OF i _ _ len ci]) simp_all
  show ?case
  proof (cases "flat D code0 (8 * i + 8) ?v0")
    case (Inl s')
    from flat_Inl_mono[OF this, of 64] i have "flat D code0 64 ?v0 = Inl s'" by simp
    with fj Inl i show ?thesis by (simp add: for_i.simps[of D i])
  next
    case (Inr v')
    obtain l' nx' s' bs' where v': "v' = (l', nx', s', bs')" by (cases v') auto
    have f': "flat D code0 (8 * (i + 1)) ?v0 = Inr (l', nx', s', bs')"
      using Inr v' by (simp add: algebra_simps)
    from flat_prefix[of D code0 "8 * i" 8 ?v0 l' nx' s' bs'] Inr v' Suc.prems(2)
    obtain cs where cs: "bs' = bs @ cs" by auto
    have code': "code[i := byte_at bs' i] = store_bytes (i + 1) bs' code0"
      using Suc.prems(3) len by (simp add: cs store_bytes_append)
    have k: "k = 8 - (i + 1)" using Suc.hyps(2) by simp
    have IH: "case flat D code0 64 ?v0 of
        Inl s'' \<Rightarrow> \<exists>c. for_i D (i + 1) (code[i := byte_at bs' i]) (of_nat (8 * (i + 1))) nx' l' s' = (ERROR, c, s'')
      | Inr (l'', nx'', s'', bs'') \<Rightarrow>
          for_i D (i + 1) (code[i := byte_at bs' i]) (of_nat (8 * (i + 1))) nx' l' s' = (nx'', store_bytes 8 bs'' code0, s'')"
      using Suc.hyps(1)[OF k _ f' code'] i by simp
    have step: "for_i D i code (of_nat (8 * i)) nx l s =
        for_i D (i + 1) (code[i := byte_at bs' i]) (of_nat (8 * (i + 1))) nx' l' s'"
      using fj Inr v' i by (simp add: for_i.simps[of D i] algebra_simps)
    show ?thesis unfolding step using IH .
  qed
qed

lemma search_flat:
  "case flat D code 64 (lst, LAST, s, []) of
      Inl s' \<Rightarrow> \<exists>c. search D code lst s = (ERROR, c, s')
    | Inr (l', nx', s', bs') \<Rightarrow> search D code lst s = (nx', store_bytes 8 bs' code, s')"
  using for_i_flat[of 0 D code lst LAST s lst LAST s "[]" code]
  by (auto simp: search_def split: sum.splits prod.splits)

lemma rom_bit_store_bytes:
  assumes "length c = 8" "length bs = 64" "p < 64"
  shows "rom_bit (store_bytes 8 bs c) p = bs ! p"
proof -
  have d: "p div 8 < 8" using assms by simp
  have "rom_bit (store_bytes 8 bs c) p = bit (byte_at bs (p div 8)) (p mod 8)"
    using assms d by (simp add: rom_bit_def store_bytes_nth_lt)
  also have "\<dots> = bs ! (8 * (p div 8) + p mod 8)"
    using assms d by (simp add: byte_at_def bit_horner_sum_bit_word_iff)
  finally show ?thesis by simp
qed

subsection \<open>Sentinels and word arithmetic\<close>

lemma LAST_64: "LAST = 64"
  by (simp add: LAST_def ROMBITS_def ROM_MAX_def CHARBITS_def)

lemma sint_pos: "p < 128 \<Longrightarrow> sint (of_nat p :: int8) = int p"
  by (simp add: signed_of_nat signed_take_bit_int_eq_self)

lemma sint_ERROR: "sint ERROR = - 1"
  by (simp add: ERROR_def)

lemma sint_FIRST: "sint FIRST = - 1"
  by (simp add: FIRST_def)

lemma sint_LAST: "sint LAST = 64"
  by (simp add: LAST_64)

lemma of_nat_neq_LAST: "p < 64 \<Longrightarrow> (of_nat p :: int8) \<noteq> LAST"
proof
  assume p: "p < 64" and e: "(of_nat p :: int8) = LAST"
  from e have "sint (of_nat p :: int8) = sint LAST" by simp
  with p show False by (simp add: sint_pos sint_LAST)
qed

subsection \<open>The traced bus manager\<close>

lemma untrace_retrace [simp]: "untrace (retrace s l) = s"
  by (simp add: untrace_def retrace_def)

lemma log_of_retrace [simp]: "log_of (retrace s l) = l"
  by (simp add: log_of_def retrace_def)

lemma m_crc_retrace [simp]: "m_crc (retrace s l) = m_crc s"
  by (simp add: retrace_def)

lemma retrace_m_crc_update: "(retrace s l)\<lparr>m_crc := c\<rparr> = retrace (s\<lparr>m_crc := c\<rparr>) l"
  by (simp add: retrace_def)

lemma retrace_untrace: "retrace (untrace t) (log_of t) = t"
  by (simp add: untrace_def retrace_def log_of_def)

lemma traced_reset:
  "reset_bus (traced D) (retrace s l) =
     (fst (reset_bus D s), retrace (snd (reset_bus D s)) (l @ [EReset (fst (reset_bus D s))]))"
  by (simp add: traced_def split: prod.splits)

lemma traced_read:
  "read_bits (traced D) n (retrace s l) =
     (fst (read_bits D n s), retrace (snd (read_bits D n s)) (l @ [ERead n (fst (read_bits D n s))]))"
  by (simp add: traced_def split: prod.splits)

lemma traced_write:
  "write_bits (traced D) v n (retrace s l) = retrace (write_bits D v n s) (l @ [EWrite v n])"
  by (simp add: traced_def)

lemma responses_append [simp]: "responses (xs @ ys) = responses xs @ responses ys"
  by (induction xs rule: responses.induct) simp_all

lemma writes_append [simp]: "writes (xs @ ys) = writes xs @ writes ys"
  by (induction xs rule: writes.induct) simp_all

subsection \<open>A failed reset\<close>

lemma reset_fails_general:
  assumes "\<not> fst (reset_bus D s)"
  shows "search_rom D family code lst s = Some (ERROR, code, snd (reset_bus D s))"
    and "alarm_search D code lst s = (ERROR, code, snd (reset_bus D s))"
    and "read_rom D code s = (False, code, snd (reset_bus D s))"
    and "match_rom D code s = (False, snd (reset_bus D s))"
    and "skip_rom D s = (False, snd (reset_bus D s))"
proof -
  obtain ok s1 where r: "reset_bus D s = (ok, s1)" by (cases "reset_bus D s")
  with assms have ok: "\<not> ok" by simp
  show "search_rom D family code lst s = Some (ERROR, code, snd (reset_bus D s))"
    by (subst search_rom.simps) (simp add: r ok)
  show "alarm_search D code lst s = (ERROR, code, snd (reset_bus D s))"
    by (simp add: alarm_search_def r ok)
  show "read_rom D code s = (False, code, snd (reset_bus D s))"
    by (simp add: read_rom_def r ok)
  show "match_rom D code s = (False, snd (reset_bus D s))"
    by (simp add: match_rom_def r ok)
  show "skip_rom D s = (False, snd (reset_bus D s))"
    by (simp add: skip_rom_def r ok)
qed

text \<open>
  C5. When \<open>reset()\<close> returns false, \<open>search_rom\<close> and \<open>alarm_search\<close> return ERROR and
  \<open>read_rom\<close>, \<open>match_rom\<close> and \<open>skip_rom\<close> return false; the code buffer is untouched
  and the object is left as the reset left it. On a traced bus manager the traffic of
  the whole operation is the failed reset alone: no command byte, no further read or
  write.
\<close>

theorem reset_failure_aborts:
  assumes "\<not> fst (reset_bus D s)"
  shows "search_rom D family code lst s = Some (ERROR, code, snd (reset_bus D s)) \<and>
         alarm_search D code lst s = (ERROR, code, snd (reset_bus D s)) \<and>
         read_rom D code s = (False, code, snd (reset_bus D s)) \<and>
         match_rom D code s = (False, snd (reset_bus D s)) \<and>
         skip_rom D s = (False, snd (reset_bus D s)) \<and>
         (\<exists>t. log_of t = l @ [EReset False] \<and>
              search_rom (traced D) family code lst (retrace s l) = Some (ERROR, code, t) \<and>
              alarm_search (traced D) code lst (retrace s l) = (ERROR, code, t) \<and>
              read_rom (traced D) code (retrace s l) = (False, code, t) \<and>
              match_rom (traced D) code (retrace s l) = (False, t) \<and>
              skip_rom (traced D) (retrace s l) = (False, t))"
proof -
  let ?t = "snd (reset_bus (traced D) (retrace s l))"
  have f: "\<not> fst (reset_bus (traced D) (retrace s l))"
    using assms by (simp add: traced_reset)
  have lg: "log_of ?t = l @ [EReset False]"
    using assms by (simp add: traced_reset)
  show ?thesis
    using reset_fails_general[OF assms] reset_fails_general[OF f] lg by blast
qed

theorem reset_failure_aborts_witness:
  "search_rom (sim_bus crc8_bit) 0 [1, 2, 3, 4, 5, 6, 7, 8] FIRST
      \<lparr>m_crc = 0, port = \<lparr>devices = [], active = [], idx = 0, mode = Idle\<rparr>\<rparr>
    = Some (ERROR, [1, 2, 3, 4, 5, 6, 7, 8],
        \<lparr>m_crc = 0, port = \<lparr>devices = [], active = [], idx = 0, mode = Command\<rparr>\<rparr>)"
proof -
  let ?s = "\<lparr>m_crc = 0, port = \<lparr>devices = [], active = [], idx = 0, mode = Idle\<rparr>\<rparr>"
  have r: "reset_bus (sim_bus crc8_bit) ?s =
      (False, \<lparr>m_crc = 0, port = \<lparr>devices = [], active = [], idx = 0, mode = Command\<rparr>\<rparr>)"
    by (simp add: sim_bus_def sim_reset_def)
  then have h: "\<not> fst (reset_bus (sim_bus crc8_bit) ?s)" by simp
  from reset_failure_aborts[OF h, of 0 "[1, 2, 3, 4, 5, 6, 7, 8]" FIRST] r
  show ?thesis by simp
qed

subsection \<open>Buffer reads\<close>

lemma length_read_seq: "length (fst (read_seq D n s)) = n"
proof (induction n arbitrary: s)
  case 0
  then show ?case by simp
next
  case (Suc n)
  obtain v s1 where r: "read_bits D 8 s = (v, s1)" by (cases "read_bits D 8 s")
  obtain vs s2 where rs: "read_seq D n s1 = (vs, s2)" by (cases "read_seq D n s1")
  from Suc.IH[of s1] rs have "length vs = n" by simp
  then show ?case by (simp add: r rs)
qed

lemma read_loop_read_seq:
  "bp + count \<le> length buf \<Longrightarrow>
   read_loop D count buf bp s =
     (case read_seq D count s of (vs, s') \<Rightarrow> (take bp buf @ vs @ drop (bp + count) buf, s'))"
proof (induction count arbitrary: buf bp s)
  case 0
  then show ?case by simp
next
  case (Suc count)
  obtain v s1 where r: "read_bits D 8 s = (v, s1)" by (cases "read_bits D 8 s")
  obtain vs s2 where rs: "read_seq D count s1 = (vs, s2)" by (cases "read_seq D count s1")
  have bp: "bp < length buf" using Suc.prems by simp
  have "read_loop D (Suc count) buf bp s = read_loop D count (buf[bp := v]) (Suc bp) s1"
    by (simp add: r CHARBITS_def)
  also have "\<dots> = (take (Suc bp) (buf[bp := v]) @ vs @ drop (Suc bp + count) (buf[bp := v]), s2)"
    using Suc.IH[of "Suc bp" "buf[bp := v]" s1] Suc.prems by (simp add: rs)
  also have "take (Suc bp) (buf[bp := v]) = take bp buf @ [v]"
    using bp by (simp add: take_Suc_conv_app_nth)
  finally show ?case by (simp add: r rs)
qed

lemma read_seq_traced:
  "read_seq (traced D) n (retrace s l) =
     (fst (read_seq D n s), retrace (snd (read_seq D n s)) (l @ map (ERead 8) (fst (read_seq D n s))))"
proof (induction n arbitrary: s l)
  case 0
  then show ?case by simp
next
  case (Suc n)
  show ?case
    by (simp add: traced_read Suc.IH split: prod.splits)
qed

text \<open>
  C6. \<open>read(buffer, count)\<close> is: set the CRC sum to 0, perform \<open>count\<close> successive byte
  reads, store their values in the first \<open>count\<close> places of the buffer in ascending
  order, and return whether the CRC sum is 0 after the last read. On a traced bus manager
  the traffic is exactly these \<open>count\<close> byte reads, whatever the result: nothing is
  read again.
\<close>

theorem read_buf_correct:
  assumes "count \<le> length buf"
  shows "read_buf D buf count s =
           (case read_seq D count (s\<lparr>m_crc := 0\<rparr>) of
              (vs, s') \<Rightarrow> (m_crc s' = 0, vs @ drop count buf, s')) \<and>
         length (fst (read_seq D count (s\<lparr>m_crc := 0\<rparr>))) = count \<and>
         (\<forall>ok buf' t. read_buf (traced D) buf count (retrace s l) = (ok, buf', t) \<longrightarrow>
            log_of t = l @ map (ERead 8) (take count buf') \<and> ok = (m_crc t = 0))"
proof -
  have a: "read_buf D buf count s =
           (case read_seq D count (s\<lparr>m_crc := 0\<rparr>) of
              (vs, s') \<Rightarrow> (m_crc s' = 0, vs @ drop count buf, s'))" for D :: "'b driver" and s
    using assms by (simp add: read_buf_def read_loop_read_seq split: prod.splits)
  have c: "\<forall>ok buf' t. read_buf (traced D) buf count (retrace s l) = (ok, buf', t) \<longrightarrow>
            log_of t = l @ map (ERead 8) (take count buf') \<and> ok = (m_crc t = 0)"
    using length_read_seq[of D count "s\<lparr>m_crc := 0\<rparr>"]
    by (auto simp: a retrace_m_crc_update read_seq_traced split: prod.splits)
  show ?thesis using a c length_read_seq by blast
qed

theorem read_buf_correct_witness:
  "read_buf replay_bus [0, 0, 0] 2 \<lparr>m_crc = 7, port = [5, 6, 9]\<rparr> =
     (case read_seq replay_bus 2 \<lparr>m_crc = 0, port = [5, 6, 9]\<rparr> of
        (vs, s') \<Rightarrow> (m_crc s' = 0, vs @ [0], s'))"
proof -
  have h: "(2 :: nat) \<le> length [0 :: uint8, 0, 0]" by simp
  from read_buf_correct[OF h, of replay_bus "\<lparr>m_crc = 7, port = [5, 6, 9]\<rparr>"]
  show ?thesis by simp
qed

subsection \<open>The device address accessors\<close>

text \<open>
  C10. After \<open>rom(code)\<close>, or after construction with a non-NULL \<open>rom\<close> argument, \<open>rom()\<close>
  returns the eight bytes of the given code; the accessors act on the device object
  alone (they neither take nor return a bus state, and leave the bus reference as it
  was); construction with the NULL default writes nothing to \<open>m_rom\<close>, which keeps
  whatever its storage held.
\<close>

theorem device_rom_accessors:
  assumes "length code = ROM_MAX" and "length (m_rom dev) = ROM_MAX" and "length mem = ROM_MAX"
  shows "rom_get (rom_set dev code) = code \<and>
         rom_get (Device_new mem owi (Some code)) = code \<and>
         m_owi (rom_set dev code) = m_owi dev \<and>
         m_owi (Device_new mem owi (Some code)) = owi \<and>
         rom_get (Device_new mem owi None) = mem"
  using assms by (simp add: rom_get_def rom_set_def Device_new_def memcpy_def)

theorem device_rom_accessors_witness:
  "rom_get (rom_set \<lparr>m_owi = (), m_rom = [9, 9, 9, 9, 9, 9, 9, 9]\<rparr> [40, 1, 2, 3, 4, 5, 6, 7])
     = [40, 1, 2, 3, 4, 5, 6, 7]"
proof -
  have a: "length [40 :: uint8, 1, 2, 3, 4, 5, 6, 7] = ROM_MAX" by (simp add: ROM_MAX_def)
  have b: "length (m_rom \<lparr>m_owi = (), m_rom = [9 :: uint8, 9, 9, 9, 9, 9, 9, 9]\<rparr>) = ROM_MAX"
    by (simp add: ROM_MAX_def)
  have c: "length [0 :: uint8, 0, 0, 0, 0, 0, 0, 0] = ROM_MAX" by (simp add: ROM_MAX_def)
  from device_rom_accessors[OF a b c, where owi = "()"] show ?thesis by simp
qed

subsection \<open>The range of the returned position\<close>

lemma flat_step_next:
  "flat_step D code p (l, nx, s, bs) = Inr (l', nx', s', bs') \<Longrightarrow> nx' = nx \<or> nx' = of_nat p"
  by (auto simp: flat_step_def split: prod.splits if_splits)

lemma flat_next_range:
  "flat D code n (l0, LAST, s0, []) = Inr (l, nx, s, bs) \<Longrightarrow> nx = LAST \<or> (\<exists>p<n. nx = of_nat p)"
proof (induction n arbitrary: l nx s bs)
  case 0
  then show ?case by simp
next
  case (Suc n)
  then obtain l1 nx1 s1 bs1 where f: "flat D code n (l0, LAST, s0, []) = Inr (l1, nx1, s1, bs1)"
    and st: "flat_step D code n (l1, nx1, s1, bs1) = Inr (l, nx, s, bs)"
    by (auto split: sum.splits)
  from Suc.IH[OF f] flat_step_next[OF st] show ?case
    by (auto simp: less_Suc_eq)
qed

lemma search_range:
  "- 1 \<le> sint (fst (search D code lst s)) \<and> sint (fst (search D code lst s)) \<le> 64"
proof (cases "flat D code 64 (lst, LAST, s, [])")
  case (Inl s')
  with search_flat[of D code lst s] show ?thesis by (auto simp: sint_ERROR)
next
  case (Inr v)
  obtain l nx s' bs where v: "v = (l, nx, s', bs)" by (cases v) auto
  from search_flat[of D code lst s] Inr v have r: "fst (search D code lst s) = nx" by simp
  from flat_next_range[OF Inr[unfolded v]] show ?thesis
  proof
    assume "nx = LAST"
    with r show ?thesis by (simp add: sint_LAST)
  next
    assume "\<exists>p<64. nx = of_nat p"
    then obtain p where "p < 64" "nx = of_nat p" by auto
    with r show ?thesis by (simp add: sint_pos)
  qed
qed

lemma search_rom_range:
  assumes "search_rom (D :: 'p driver) family code lst s = Some y"
  shows "- 1 \<le> sint (fst y) \<and> sint (fst y) \<le> 64"
proof (rule search_rom.raw_induct[where
      P = "\<lambda>(D :: 'p driver) (family :: uint8) (code :: uint8 list) (lst :: int8) (s :: 'p owi)
            (y :: int8 \<times> uint8 list \<times> 'p owi). - 1 \<le> sint (fst y) \<and> sint (fst y) \<le> 64",
      OF _ assms],
    goal_cases)
  case (1 search_rom D family code lst s y)
  obtain ok s1 where r: "reset_bus D s = (ok, s1)" by (cases "reset_bus D s")
  show ?case
  proof (cases ok)
    case False
    with 1(2) r show ?thesis by (auto simp: sint_ERROR)
  next
    case True
    obtain l' c' s3 where sr: "search D code lst (write_bits D SEARCH_ROM CHARBITS s1) = (l', c', s3)"
      by (cases "search D code lst (write_bits D SEARCH_ROM CHARBITS s1)")
    from search_range[of D code lst "write_bits D SEARCH_ROM CHARBITS s1"] sr
    have rg: "- 1 \<le> sint l' \<and> sint l' \<le> 64" by simp
    show ?thesis
    proof (cases "l' \<noteq> LAST \<and> family \<noteq> 0 \<and> c' ! 0 \<noteq> family")
      case True
      with 1(2) r \<open>ok\<close> sr have "search_rom D family c' l' s3 = Some y" by simp
      from 1(1)[OF this] show ?thesis .
    next
      case False
      with 1(2) r \<open>ok\<close> sr have "y = (l', c', s3)" by auto
      with rg show ?thesis by simp
    qed
  qed
qed

text \<open>
  C8. The sentinels are FIRST = -1, ERROR = -1 and LAST = 64, the number of bits of a ROM
  code, and every value returned by \<open>search\<close>, \<open>alarm_search\<close> or \<open>search_rom\<close>, read as
  a signed byte, lies between -1 and 64.
\<close>

theorem position_range:
  "sint FIRST = - 1 \<and> sint ERROR = - 1 \<and> sint LAST = 64 \<and> LAST = of_nat ROMBITS \<and> ROMBITS = 64 \<and>
   (- 1 \<le> sint (fst (search D code lst s)) \<and> sint (fst (search D code lst s)) \<le> 64) \<and>
   (- 1 \<le> sint (fst (alarm_search D code lst s)) \<and> sint (fst (alarm_search D code lst s)) \<le> 64) \<and>
   (\<forall>r c s'. search_rom D family code lst s = Some (r, c, s') \<longrightarrow> - 1 \<le> sint r \<and> sint r \<le> 64)"
proof -
  have a: "- 1 \<le> sint (fst (alarm_search D code lst s)) \<and> sint (fst (alarm_search D code lst s)) \<le> 64"
    using search_range[of D code lst "write_bits D ALARM_SEARCH CHARBITS (snd (reset_bus D s))"]
    by (auto simp: alarm_search_def sint_ERROR split: prod.splits)
  have b: "\<forall>r c s'. search_rom D family code lst s = Some (r, c, s') \<longrightarrow> - 1 \<le> sint r \<and> sint r \<le> 64"
    using search_rom_range[of D family code lst s] by auto
  show ?thesis
    using a b search_range[of D code lst s]
    by (simp add: sint_FIRST sint_ERROR sint_LAST LAST_def ROMBITS_def ROM_MAX_def CHARBITS_def)
qed

theorem position_range_witness:
  "search_rom replay_bus 0 (replicate 8 0) FIRST \<lparr>m_crc = 0, port = replicate 64 1\<rparr>
     = Some (64, replicate 8 255, \<lparr>m_crc = 0, port = []\<rparr>) \<and>
   - 1 \<le> sint (64 :: int8) \<and> sint (64 :: int8) \<le> 64"
proof -
  have h: "search_rom replay_bus 0 (replicate 8 0) FIRST \<lparr>m_crc = 0, port = replicate 64 1\<rparr>
     = Some (64, replicate 8 255, \<lparr>m_crc = 0, port = []\<rparr>)"
    by code_simp
  from position_range[of replay_bus "replicate 8 0" FIRST "\<lparr>m_crc = 0, port = replicate 64 1\<rparr>" 0] h
  show ?thesis by simp
qed

subsection \<open>One search pass on the simulated bus\<close>

lemma agree_refl [simp]: "agree t t p"
  by (simp add: agree_def)

lemma agree_Suc: "agree c d (Suc p) = (agree c d p \<and> rom_bit c p = rom_bit d p)"
  by (auto simp: agree_def less_Suc_eq)

lemma agree_mono: "agree c d p \<Longrightarrow> q \<le> p \<Longrightarrow> agree c d q"
  by (simp add: agree_def)

lemma agree_sym: "agree c d p \<Longrightarrow> agree d c p"
  by (simp add: agree_def)

lemma agree_trans: "agree c d p \<Longrightarrow> agree d e p \<Longrightarrow> agree c e p"
  by (simp add: agree_def)

lemma sim_read_pair:
  assumes "mode (port s) = Searching" "idx (port s) < 64"
  shows "read_bits (sim_bus upd) 2 s =
     (of_bool (\<forall>d\<in>set (active (port s)). rom_bit d (idx (port s)))
        + 2 * of_bool (\<forall>d\<in>set (active (port s)). \<not> rom_bit d (idx (port s))),
      \<lparr>m_crc = fold upd [\<forall>d\<in>set (active (port s)). rom_bit d (idx (port s)),
                          \<forall>d\<in>set (active (port s)). \<not> rom_bit d (idx (port s))] (m_crc s),
       port = port s\<rparr>)"
  using assms by (simp add: sim_bus_def sim_read_def)

lemma sim_write_bit:
  assumes "mode (port s) = Searching" "idx (port s) < 64"
  shows "write_bits (sim_bus upd) v 1 s =
     s\<lparr>port := (port s)\<lparr>active := filter (\<lambda>d. rom_bit d (idx (port s)) = bit v 0) (active (port s)),
                        idx := idx (port s) + 1\<rparr>\<rparr>"
  using assms by (simp add: sim_bus_def sim_write_def)

lemma sim_flat_step:
  assumes t: "t \<in> set devs" and p: "p < 64"
    and H: "disc (set devs) t p \<Longrightarrow> choice lst0 code0 p = rom_bit t p"
    and l: "l = lst0 \<or> (l = FIRST \<and> sint lst0 < int p)"
    and dv: "devices (port s) = devs"
    and ac: "set (active (port s)) = {d \<in> set devs. agree t d p}"
    and ix: "idx (port s) = p" and md: "mode (port s) = Searching"
  shows "\<exists>l' s'. flat_step (sim_bus upd) code0 p (l, nx, s, bs) =
            Inr (l', if disc (set devs) t p \<and> \<not> rom_bit t p then of_nat p else nx, s', bs @ [rom_bit t p]) \<and>
          (l' = lst0 \<or> (l' = FIRST \<and> sint lst0 < int (Suc p))) \<and>
          devices (port s') = devs \<and>
          set (active (port s')) = {d \<in> set devs. agree t d (Suc p)} \<and>
          idx (port s') = Suc p \<and> mode (port s') = Searching"
proof -
  define a where "a = (\<forall>d\<in>set (active (port s)). rom_bit d p)"
  define b where "b = (\<forall>d\<in>set (active (port s)). \<not> rom_bit d p)"
  define s1 where "s1 = \<lparr>m_crc = fold upd [a, b] (m_crc s), port = port s\<rparr>"
  define s2 where "s2 c = s1\<lparr>port := (port s)\<lparr>active := filter (\<lambda>d. rom_bit d p = c) (active (port s)),
                        idx := Suc p\<rparr>\<rparr>" for c
  have tA: "t \<in> set (active (port s))" using t ac by simp
  have rd: "read_bits (sim_bus upd) 2 s = (of_bool a + 2 * of_bool b, s1)"
    using sim_read_pair[of s upd] md ix p by (simp add: a_def b_def s1_def)
  have p1: "mode (port s1) = Searching" "idx (port s1) = p" "port s1 = port s"
    using md ix by (simp_all add: s1_def)
  have wr1: "write_bits (sim_bus upd) 1 (Suc 0) s1 = s2 True"
    using sim_write_bit[of s1 upd 1] p1 p by (simp add: s2_def)
  have wr0: "write_bits (sim_bus upd) 0 (Suc 0) s1 = s2 False"
    using sim_write_bit[of s1 upd 0] p1 p by (simp add: s2_def)
  have dc: "disc (set devs) t p = (\<not> a \<and> \<not> b)"
    unfolding disc_def a_def b_def ac by auto
  have s2p: "devices (port (s2 c)) = devs" "idx (port (s2 c)) = Suc p" "mode (port (s2 c)) = Searching"
    "set (active (port (s2 c))) = {d \<in> set devs. agree t d p \<and> rom_bit d p = c}" for c
    using dv md ac by (auto simp: s2_def)
  have nA: "{d \<in> set devs. agree t d (Suc p)} = {d \<in> set devs. agree t d p \<and> rom_bit d p = rom_bit t p}"
    by (auto simp: agree_Suc)
  have fin: "flat_step (sim_bus upd) code0 p (l, nx, s, bs) =
            Inr (l', if disc (set devs) t p \<and> \<not> rom_bit t p then of_nat p else nx,
                 s2 (rom_bit t p), bs @ [rom_bit t p]) \<Longrightarrow>
          (l' = lst0 \<or> (l' = FIRST \<and> sint lst0 < int (Suc p))) \<Longrightarrow> ?thesis" for l'
    using s2p[of "rom_bit t p"] nA by auto
  consider (ones) "a" "\<not> b" | (zeros) "b" "\<not> a" | (both) "\<not> a" "\<not> b" | (none) "a" "b" by blast
  then show ?thesis
  proof cases
    case ones
    with tA have tp: "rom_bit t p" by (auto simp: a_def)
    have "flat_step (sim_bus upd) code0 p (l, nx, s, bs) = Inr (l, nx, s2 True, bs @ [True])"
      using ones by (simp add: flat_step_def rd wr1)
    with tp dc ones l show ?thesis by (intro fin[of l]) auto
  next
    case zeros
    with tA have tp: "\<not> rom_bit t p" by (auto simp: b_def)
    have "flat_step (sim_bus upd) code0 p (l, nx, s, bs) = Inr (l, nx, s2 False, bs @ [False])"
      using zeros by (simp add: flat_step_def rd wr0)
    with tp dc zeros l show ?thesis by (intro fin[of l]) auto
  next
    case none
    with tA show ?thesis by (auto simp: a_def b_def)
  next
    case both
    then have d: "disc (set devs) t p" using dc by simp
    from H[OF d] have ch: "choice lst0 code0 p = rom_bit t p" .
    have rd0: "read_bits (sim_bus upd) 2 s = (0, s1)" using rd both by simp
    show ?thesis
    proof (cases "int p = sint l")
      case True
      with l have ll: "l = lst0" by (auto simp: sint_FIRST)
      with True ch have tp: "rom_bit t p" by (simp add: choice_def)
      have "flat_step (sim_bus upd) code0 p (l, nx, s, bs) = Inr (FIRST, nx, s2 True, bs @ [True])"
        using True by (simp add: flat_step_def rd0 wr1)
      with tp d True ll show ?thesis by (intro fin[of FIRST]) auto
    next
      case False
      note ne = False
      show ?thesis
      proof (cases "sint l < int p")
        case True
        have "sint lst0 < int p" using l True by (auto simp: sint_FIRST)
        with ch have tp: "\<not> rom_bit t p" by (auto simp: choice_def)
        have "flat_step (sim_bus upd) code0 p (l, nx, s, bs) = Inr (l, of_nat p, s2 False, bs @ [False])"
          using True ne by (simp add: flat_step_def rd0 wr0)
        with tp d l show ?thesis by (intro fin[of l]) auto
      next
        case False
        with ne l have ll: "l = lst0" by (auto simp: sint_FIRST)
        with ne False ch have tp: "rom_bit t p = rom_bit code0 p" by (simp add: choice_def)
        show ?thesis
        proof (cases "rom_bit code0 p")
          case True
          have "flat_step (sim_bus upd) code0 p (l, nx, s, bs) = Inr (l, nx, s2 True, bs @ [True])"
            using True False ne by (simp add: flat_step_def rd0 wr1)
          with tp True d l show ?thesis by (intro fin[of l]) auto
        next
          case nb: False
          have "flat_step (sim_bus upd) code0 p (l, nx, s, bs) = Inr (l, of_nat p, s2 False, bs @ [False])"
            using nb False ne by (simp add: flat_step_def rd0 wr0)
          with tp nb d l show ?thesis by (intro fin[of l]) auto
        qed
      qed
    qed
  qed
qed

lemma sim_flat:
  assumes t: "t \<in> set devs"
    and H: "\<And>p. p < 64 \<Longrightarrow> disc (set devs) t p \<Longrightarrow> choice lst0 code0 p = rom_bit t p"
    and dv: "devices (port s0) = devs" and ac: "active (port s0) = devs"
    and ix: "idx (port s0) = 0" and md: "mode (port s0) = Searching"
  shows "n \<le> 64 \<Longrightarrow>
    \<exists>l s. flat (sim_bus upd) code0 n (lst0, LAST, s0, []) =
             Inr (l, zero_taken (set devs) t n, s, map (rom_bit t) [0..<n]) \<and>
          (l = lst0 \<or> (l = FIRST \<and> sint lst0 < int n)) \<and>
          devices (port s) = devs \<and>
          set (active (port s)) = {d \<in> set devs. agree t d n} \<and>
          idx (port s) = n \<and> mode (port s) = Searching"
proof (induction n)
  case 0
  show ?case using dv ac ix md by (simp add: agree_def)
next
  case (Suc n)
  then have n: "n < 64" by simp
  from Suc obtain l s where
    f: "flat (sim_bus upd) code0 n (lst0, LAST, s0, []) =
             Inr (l, zero_taken (set devs) t n, s, map (rom_bit t) [0..<n])"
    and l: "l = lst0 \<or> (l = FIRST \<and> sint lst0 < int n)"
    and i: "devices (port s) = devs" "set (active (port s)) = {d \<in> set devs. agree t d n}"
      "idx (port s) = n" "mode (port s) = Searching"
    by auto
  from sim_flat_step[OF t n H[OF n] l i, of upd "zero_taken (set devs) t n" "map (rom_bit t) [0..<n]"]
  show ?case by (auto simp: f)
qed

lemma store_key:
  assumes "length t = 8" "length c = 8"
  shows "store_bytes 8 (map (rom_bit t) [0..<64]) c = t"
proof (rule nth_equalityI)
  show "length (store_bytes 8 (map (rom_bit t) [0..<64]) c) = length t"
    using assms by simp
next
  fix i assume "i < length (store_bytes 8 (map (rom_bit t) [0..<64]) c)"
  then have i: "i < 8" using assms by simp
  have "byte_at (map (rom_bit t) [0..<64]) i = t ! i"
  proof (rule bit_eqI)
    fix m assume "possible_bit TYPE(uint8) m"
    then have m: "m < 8" by (simp add: possible_bit_def)
    have "(8 * i + m) div 8 = i" "(8 * i + m) mod 8 = m" using m by simp_all
    then show "bit (byte_at (map (rom_bit t) [0..<64]) i) m = bit (t ! i) m"
      using i m by (simp add: byte_at_def bit_horner_sum_bit_word_iff rom_bit_def)
  qed
  then show "store_bytes 8 (map (rom_bit t) [0..<64]) c ! i = t ! i"
    using i assms by (simp add: store_bytes_nth_lt)
qed

lemma sim_search:
  assumes t: "t \<in> set devs"
    and H: "\<And>p. p < 64 \<Longrightarrow> disc (set devs) t p \<Longrightarrow> choice lst0 code0 p = rom_bit t p"
    and dv: "devices (port s0) = devs" and ac: "active (port s0) = devs"
    and ix: "idx (port s0) = 0" and md: "mode (port s0) = Searching"
    and len: "length t = 8" "length code0 = 8"
  shows "\<exists>s. search (sim_bus upd) code0 lst0 s0 = (zero_taken (set devs) t 64, t, s) \<and>
             devices (port s) = devs"
proof -
  from sim_flat[OF t H dv ac ix md, of 64 upd] obtain l s where
    f: "flat (sim_bus upd) code0 64 (lst0, LAST, s0, []) =
             Inr (l, zero_taken (set devs) t 64, s, map (rom_bit t) [0..<64])"
    and d: "devices (port s) = devs"
    by auto
  from search_flat[of "sim_bus upd" code0 lst0 s0] f
  have "search (sim_bus upd) code0 lst0 s0 =
      (zero_taken (set devs) t 64, store_bytes 8 (map (rom_bit t) [0..<64]) code0, s)"
    by simp
  with d show ?thesis by (simp add: store_key[OF len])
qed

lemma sim_search_rom_unfold:
  assumes t: "t \<in> set devs"
    and H: "\<And>p. p < 64 \<Longrightarrow> disc (set devs) t p \<Longrightarrow> choice lst0 code0 p = rom_bit t p"
    and dv: "devices (port s0) = devs"
    and len: "length t = 8" "length code0 = 8"
  shows "\<exists>s. devices (port s) = devs \<and>
           search_rom (sim_bus upd) family code0 lst0 s0 =
             (if zero_taken (set devs) t 64 \<noteq> LAST \<and> family \<noteq> 0 \<and> t ! 0 \<noteq> family
              then search_rom (sim_bus upd) family t (zero_taken (set devs) t 64) s
              else Some (zero_taken (set devs) t 64, t, s))"
proof -
  let ?s1 = "s0\<lparr>port := (port s0)\<lparr>active := devs, idx := 0, mode := Command\<rparr>\<rparr>"
  let ?s2 = "s0\<lparr>port := (port s0)\<lparr>active := devs, idx := 0, mode := Searching\<rparr>\<rparr>"
  have ne: "devs \<noteq> []" using t by auto
  have r: "reset_bus (sim_bus upd) s0 = (True, ?s1)"
    using dv ne by (simp add: sim_bus_def sim_reset_def)
  have w: "write_bits (sim_bus upd) SEARCH_ROM CHARBITS ?s1 = ?s2"
    by (simp add: sim_bus_def sim_write_def CHARBITS_def)
  from sim_search[OF t H, of ?s2 upd] dv len obtain s where
    s: "search (sim_bus upd) code0 lst0 ?s2 = (zero_taken (set devs) t 64, t, s)"
    and d: "devices (port s) = devs"
    by auto
  have "search_rom (sim_bus upd) family code0 lst0 s0 =
             (if zero_taken (set devs) t 64 \<noteq> LAST \<and> family \<noteq> 0 \<and> t ! 0 \<noteq> family
              then search_rom (sim_bus upd) family t (zero_taken (set devs) t 64) s
              else Some (zero_taken (set devs) t 64, t, s))"
    by (subst search_rom.simps) (simp add: r w s)
  with d show ?thesis by blast
qed

lemma sim_search_rom:
  assumes t: "t \<in> set devs"
    and H: "\<And>p. p < 64 \<Longrightarrow> disc (set devs) t p \<Longrightarrow> choice lst0 code0 p = rom_bit t p"
    and dv: "devices (port s0) = devs"
    and len: "length t = 8" "length code0 = 8"
    and fam: "family = 0 \<or> t ! 0 = family \<or> zero_taken (set devs) t 64 = LAST"
  shows "\<exists>s. search_rom (sim_bus upd) family code0 lst0 s0 = Some (zero_taken (set devs) t 64, t, s) \<and>
             devices (port s) = devs"
  using sim_search_rom_unfold[OF t H dv len, of upd family] fam by auto

subsection \<open>The bus order of ROM codes\<close>

lemma length_key [simp]: "length (key c) = 64"
  by (simp add: key_def)

lemma take_key: "i \<le> 64 \<Longrightarrow> take i (key c) = map (rom_bit c) [0..<i]"
  by (simp add: key_def take_map min_def)

lemma take_key_eq: "i \<le> 64 \<Longrightarrow> (take i (key c) = take i (key d)) = agree c d i"
  by (auto simp: take_key agree_def)

lemma key_nth: "i < 64 \<Longrightarrow> key c ! i = rom_bit c i"
  by (simp add: key_def)

lemma key_less_iff:
  "(key c < key d) = (\<exists>p<64. agree c d p \<and> \<not> rom_bit c p \<and> rom_bit d p)"
proof -
  have "(key c < key d) =
      (\<exists>i<64. take i (key c) = take i (key d) \<and> (key c ! i, key d ! i) \<in> {(u, v). u < v})"
    by (simp add: list_less_def lexord_take_index_conv)
  also have "\<dots> = (\<exists>p<64. agree c d p \<and> \<not> rom_bit c p \<and> rom_bit d p)"
    by (auto simp: take_key_eq key_nth)
  finally show ?thesis .
qed

lemma key_eq_iff: "(key c = key d) = agree c d 64"
  using take_key_eq[of 64 c d] by simp

lemma key_inj:
  assumes "length c = 8" "length d = 8" "key c = key d"
  shows "c = d"
proof (rule nth_equalityI)
  show "length c = length d" using assms by simp
next
  fix i assume "i < length c"
  then have i: "i < 8" using assms by simp
  show "c ! i = d ! i"
  proof (rule bit_eqI)
    fix m assume "possible_bit TYPE(uint8) m"
    then have m: "m < 8" by (simp add: possible_bit_def)
    have e: "(8 * i + m) div 8 = i" "(8 * i + m) mod 8 = m" using m by simp_all
    have "8 * i + m < 64" using i m by simp
    with assms(3) have "rom_bit c (8 * i + m) = rom_bit d (8 * i + m)"
      by (simp add: key_eq_iff agree_def)
    then show "bit (c ! i) m = bit (d ! i) m"
      unfolding rom_bit_def e .
  qed
qed

subsection \<open>The deepest discrepancy with the 0-branch taken\<close>

lemma zero_taken_LAST_iff:
  "n \<le> 64 \<Longrightarrow> (zero_taken S t n = LAST) = (\<forall>p<n. \<not> (disc S t p \<and> \<not> rom_bit t p))"
  by (induction n) (auto simp: less_Suc_eq of_nat_neq_LAST)

lemma zero_taken_pos:
  "n \<le> 64 \<Longrightarrow> zero_taken S t n \<noteq> LAST \<Longrightarrow>
   \<exists>q<n. zero_taken S t n = of_nat q \<and> disc S t q \<and> \<not> rom_bit t q \<and>
          (\<forall>p. q < p \<and> p < n \<longrightarrow> \<not> (disc S t p \<and> \<not> rom_bit t p))"
proof (induction n)
  case 0
  then show ?case by simp
next
  case (Suc n)
  show ?case
  proof (cases "disc S t n \<and> \<not> rom_bit t n")
    case True
    then show ?thesis by (intro exI[of _ n]) auto
  next
    case False
    with Suc.prems have "zero_taken S t n \<noteq> LAST" by auto
    with Suc obtain q where "q < n" "zero_taken S t n = of_nat q" "disc S t q" "\<not> rom_bit t q"
      "\<forall>p. q < p \<and> p < n \<longrightarrow> \<not> (disc S t p \<and> \<not> rom_bit t p)"
      by auto
    with False show ?thesis by (intro exI[of _ q]) (auto simp: less_Suc_eq)
  qed
qed

lemma zero_taken_neq_ERROR: "zero_taken S t 64 \<noteq> ERROR"
proof (cases "zero_taken S t 64 = LAST")
  case True
  then show ?thesis by (simp add: LAST_64 ERROR_def)
next
  case False
  from zero_taken_pos[OF _ False] obtain q where q: "q < 64" "zero_taken S t 64 = of_nat q"
    by auto
  show ?thesis
  proof
    assume "zero_taken S t 64 = ERROR"
    with q have "sint (of_nat q :: int8) = sint ERROR" by simp
    with q show False by (simp add: sint_pos sint_ERROR)
  qed
qed

lemma greatest_if_LAST:
  assumes "zero_taken S c 64 = LAST" "c \<in> S" "d \<in> S"
  shows "\<not> key c < key d"
proof
  assume "key c < key d"
  then obtain p where p: "p < 64" "agree c d p" "\<not> rom_bit c p" "rom_bit d p"
    by (auto simp: key_less_iff)
  with assms have "disc S c p" unfolding disc_def by (auto intro: bexI[of _ d] bexI[of _ c])
  with p assms(1) show False by (simp add: zero_taken_LAST_iff)
qed

lemma choice_FIRST: "choice FIRST code p = False"
  by (simp add: choice_def sint_FIRST)

lemma choice_pos:
  "q < 64 \<Longrightarrow> choice (of_nat q) code p = (if p = q then True else if q < p then False else rom_bit code p)"
  by (simp add: choice_def sint_pos)

lemma least_path:
  assumes t: "t \<in> S'" and least: "\<forall>d\<in>S'. key t \<le> key d"
    and sub: "\<And>d. d \<in> S \<Longrightarrow> agree t d p \<Longrightarrow> d \<in> S'"
    and d: "disc S t p" and p: "p < 64"
  shows "\<not> rom_bit t p"
proof
  assume tp: "rom_bit t p"
  from d obtain d where dd: "d \<in> S" "agree t d p" "\<not> rom_bit d p" by (auto simp: disc_def)
  then have "key d < key t" using tp p by (auto simp: key_less_iff intro: agree_sym)
  moreover have "key t \<le> key d" using least sub[OF dd(1,2)] by simp
  ultimately show False by simp
qed

subsection \<open>The targets of the first pass and of the following passes\<close>

lemma first_target:
  assumes ne: "devs \<noteq> []"
  shows "\<exists>t. t \<in> set devs \<and> (\<forall>d\<in>set devs. key t \<le> key d) \<and>
           (\<forall>p<64. disc (set devs) t p \<longrightarrow> choice FIRST code p = rom_bit t p)"
proof -
  have "Min (key ` set devs) \<in> key ` set devs" using ne by (intro Min_in) auto
  then obtain t where t: "t \<in> set devs" and kt: "key t = Min (key ` set devs)" by auto
  have least: "\<forall>d\<in>set devs. key t \<le> key d" using kt by simp
  have "choice FIRST code p = rom_bit t p" if "p < 64" "disc (set devs) t p" for p
    using least_path[OF t least _ that(2,1)] by (simp add: choice_FIRST)
  with t least show ?thesis by blast
qed

lemma next_target:
  assumes c: "c \<in> set devs" and nl: "zero_taken (set devs) c 64 \<noteq> LAST"
  shows "\<exists>t. t \<in> set devs \<and> key c < key t \<and> (\<forall>d\<in>set devs. key c < key d \<longrightarrow> key t \<le> key d) \<and>
           (\<forall>p<64. disc (set devs) t p \<longrightarrow> choice (zero_taken (set devs) c 64) c p = rom_bit t p)"
proof -
  let ?S = "set devs"
  from zero_taken_pos[OF _ nl] obtain q where q: "q < 64" and zq: "zero_taken ?S c 64 = of_nat q"
    and dq: "disc ?S c q" and cq: "\<not> rom_bit c q"
    and deep: "\<forall>p. q < p \<and> p < 64 \<longrightarrow> \<not> (disc ?S c p \<and> \<not> rom_bit c p)"
    by auto
  define S' where "S' = {d \<in> ?S. agree c d q \<and> rom_bit d q}"
  have "S' \<noteq> {}" using dq by (auto simp: S'_def disc_def)
  moreover have "finite S'" by (simp add: S'_def)
  ultimately have "Min (key ` S') \<in> key ` S'" by (intro Min_in) auto
  then obtain t where tS': "t \<in> S'" and kt: "key t = Min (key ` S')" by auto
  have least: "\<forall>d\<in>S'. key t \<le> key d" using kt \<open>finite S'\<close> by simp
  have t: "t \<in> ?S" and ct: "agree c t q" and tq: "rom_bit t q" using tS' by (auto simp: S'_def)
  have sub: "d \<in> S'" if "d \<in> ?S" "agree t d p" "q < p" for d p
  proof -
    have "agree t d q" using that(2,3) by (auto intro: agree_mono)
    with ct have "agree c d q" by (rule agree_trans)
    moreover have "rom_bit d q = rom_bit t q" using that(2,3) by (simp add: agree_def)
    ultimately show ?thesis using that(1) tq by (simp add: S'_def)
  qed
  have H: "choice (zero_taken ?S c 64) c p = rom_bit t p" if p: "p < 64" and d: "disc ?S t p" for p
  proof -
    consider "p = q" | "q < p" | "p < q" by linarith
    then show ?thesis
    proof cases
      case 1
      then show ?thesis using tq q by (simp add: zq choice_pos)
    next
      case 2
      have "\<not> rom_bit t p"
        using least_path[OF tS' least _ d p] sub 2 by blast
      with 2 q show ?thesis by (simp add: zq choice_pos)
    next
      case 3
      with ct have "rom_bit c p = rom_bit t p" by (simp add: agree_def)
      with 3 q show ?thesis by (simp add: zq choice_pos)
    qed
  qed
  have lt: "key c < key t"
    using q ct cq tq by (auto simp: key_less_iff)
  have between: "key t \<le> key d" if d: "d \<in> ?S" and cd: "key c < key d" for d
  proof -
    from cd obtain p where p: "p < 64" "agree c d p" "\<not> rom_bit c p" "rom_bit d p"
      by (auto simp: key_less_iff)
    have "disc ?S c p" unfolding disc_def using p d c by (auto intro: bexI[of _ d] bexI[of _ c])
    with deep p have pq: "p \<le> q" by (meson not_le_imp_less)
    show ?thesis
    proof (cases "p = q")
      case True
      with p d have "d \<in> S'" by (simp add: S'_def)
      with least show ?thesis by simp
    next
      case False
      with pq have l: "p < q" by simp
      have "agree t c p" using ct l by (auto intro: agree_sym agree_mono)
      then have "agree t d p" using p(2) by (rule agree_trans)
      moreover have "\<not> rom_bit t p" using ct l p(3) by (simp add: agree_def)
      ultimately have "key t < key d" using p by (auto simp: key_less_iff)
      then show ?thesis by simp
    qed
  qed
  from t lt between H show ?thesis by blast
qed

lemma card_above_less:
  assumes "t' \<in> set devs" "key t < key t'"
  shows "card {d \<in> set devs. key t' < key d} < card {d \<in> set devs. key t < key d}"
proof (rule psubset_card_mono)
  show "finite {d \<in> set devs. key t < key d}" by simp
  have "t' \<in> {d \<in> set devs. key t < key d}" using assms by simp
  moreover have "t' \<notin> {d \<in> set devs. key t' < key d}" by simp
  moreover have "{d \<in> set devs. key t' < key d} \<subseteq> {d \<in> set devs. key t < key d}"
    using less_trans[OF assms(2)] by blast
  ultimately show "{d \<in> set devs. key t' < key d} \<subset> {d \<in> set devs. key t < key d}" by blast
qed

lemma key_le_cases:
  assumes "length t = 8" "length d = 8" "key t \<le> key d"
  shows "t = d \<or> key t < key d"
  using assms key_inj[of t d] by (auto simp: le_less)

subsection \<open>One call of \<open>search_rom\<close> on the simulated bus\<close>

text \<open>
  A call whose first pass produces \<open>t\<close> returns the first code from \<open>t\<close> on, in bus
  order, at which the loop stops.
\<close>

lemma sim_search_rom_family:
  assumes len: "\<forall>d\<in>set devs. length d = 8"
  shows "t \<in> set devs \<Longrightarrow> card {d \<in> set devs. key t < key d} < n \<Longrightarrow>
    (\<forall>p<64. disc (set devs) t p \<longrightarrow> choice lst0 code0 p = rom_bit t p) \<Longrightarrow>
    devices (port s0) = devs \<Longrightarrow> length code0 = 8 \<Longrightarrow>
    \<exists>t' s'. search_rom (sim_bus upd) family code0 lst0 s0 = Some (zero_taken (set devs) t' 64, t', s') \<and>
       t' \<in> set devs \<and> devices (port s') = devs \<and> key t \<le> key t' \<and> stops (set devs) family t' \<and>
       (\<forall>d\<in>set devs. key t \<le> key d \<and> key d < key t' \<longrightarrow> \<not> stops (set devs) family d)"
proof (induction n arbitrary: t lst0 code0 s0)
  case 0
  then show ?case by simp
next
  case (Suc n)
  let ?S = "set devs"
  have lt8: "length t = 8" using len Suc.prems(1) by simp
  from sim_search_rom_unfold[OF Suc.prems(1) _ Suc.prems(4) lt8 Suc.prems(5), of lst0 upd family]
    Suc.prems(3)
  obtain s3 where d3: "devices (port s3) = devs"
    and u: "search_rom (sim_bus upd) family code0 lst0 s0 =
             (if zero_taken ?S t 64 \<noteq> LAST \<and> family \<noteq> 0 \<and> t ! 0 \<noteq> family
              then search_rom (sim_bus upd) family t (zero_taken ?S t 64) s3
              else Some (zero_taken ?S t 64, t, s3))"
    by blast
  show ?case
  proof (cases "stops ?S family t")
    case True
    then have "search_rom (sim_bus upd) family code0 lst0 s0 = Some (zero_taken ?S t 64, t, s3)"
      using u by (auto simp: stops_def)
    with True d3 Suc.prems(1) show ?thesis
      by (intro exI[of _ t] exI[of _ s3]) auto
  next
    case False
    then have nl: "zero_taken ?S t 64 \<noteq> LAST" by (simp add: stops_def)
    from False have u': "search_rom (sim_bus upd) family code0 lst0 s0 =
        search_rom (sim_bus upd) family t (zero_taken ?S t 64) s3"
      using u by (simp add: stops_def)
    from next_target[OF Suc.prems(1) nl] obtain t2 where
      t2: "t2 \<in> ?S" and lt: "key t < key t2"
      and bt: "\<forall>d\<in>?S. key t < key d \<longrightarrow> key t2 \<le> key d"
      and H2: "\<forall>p<64. disc ?S t2 p \<longrightarrow> choice (zero_taken ?S t 64) t p = rom_bit t2 p"
      by blast
    have "card {d \<in> ?S. key t2 < key d} < card {d \<in> ?S. key t < key d}"
      using card_above_less[OF t2 lt] .
    with Suc.prems(2) have c2: "card {d \<in> ?S. key t2 < key d} < n" by simp
    from Suc.IH[OF t2 c2 H2 d3 lt8] obtain t' s' where
      r: "search_rom (sim_bus upd) family t (zero_taken ?S t 64) s3 = Some (zero_taken ?S t' 64, t', s')"
      and t': "t' \<in> ?S" and d': "devices (port s') = devs" and le: "key t2 \<le> key t'"
      and st: "stops ?S family t'"
      and first: "\<forall>d\<in>?S. key t2 \<le> key d \<and> key d < key t' \<longrightarrow> \<not> stops ?S family d"
      by blast
    have le': "key t \<le> key t'" using lt le by simp
    have first': "\<forall>d\<in>?S. key t \<le> key d \<and> key d < key t' \<longrightarrow> \<not> stops ?S family d"
    proof (intro ballI impI)
      fix d assume d: "d \<in> ?S" and h: "key t \<le> key d \<and> key d < key t'"
      from key_le_cases[OF lt8 _ conjunct1[OF h]] len d consider "t = d" | "key t < key d" by auto
      then show "\<not> stops ?S family d"
      proof cases
        case 1
        with False show ?thesis by simp
      next
        case 2
        with bt d have "key t2 \<le> key d" by simp
        with first d h show ?thesis by simp
      qed
    qed
    show ?thesis
    proof (intro exI conjI)
      show "search_rom (sim_bus upd) family code0 lst0 s0 = Some (zero_taken ?S t' 64, t', s')"
        using u' r by simp
      show "t' \<in> ?S" by (rule t')
      show "devices (port s') = devs" by (rule d')
      show "key t \<le> key t'" by (rule le')
      show "stops ?S family t'" by (rule st)
      show "\<forall>d\<in>?S. key t \<le> key d \<and> key d < key t' \<longrightarrow> \<not> stops ?S family d" by (rule first')
    qed
  qed
qed

subsection \<open>The whole enumeration\<close>

lemma enumerate_from_more:
  assumes "search_rom D family code0 lst0 s = Some (z, t, s1)" "z \<noteq> LAST" "z \<noteq> ERROR"
  shows "enumerate_from (Suc n) D family code0 lst0 s found =
    enumerate_from n D family t z s1 (found @ [t])"
  using assms by simp

lemma enumerate_from_done:
  assumes "search_rom D family code0 lst0 s = Some (LAST, t, s1)"
  shows "enumerate_from (Suc n) D family code0 lst0 s found = Some (found @ [t], LAST, t, s1)"
  using assms by (simp add: LAST_64 ERROR_def)

lemma enumerate_after:
  assumes len: "\<forall>d\<in>set devs. length d = 8"
  shows "t \<in> set devs \<Longrightarrow> card {d \<in> set devs. key t < key d} < n \<Longrightarrow> devices (port s1) = devs \<Longrightarrow>
    search_rom (sim_bus upd) family code0 lst0 s = Some (zero_taken (set devs) t 64, t, s1) \<Longrightarrow>
    \<exists>cs r s'. enumerate_from n (sim_bus upd) family code0 lst0 s found =
                 Some (found @ t # cs, LAST, r, s') \<and>
              sorted_wrt (\<lambda>x y. key x < key y) cs \<and>
              set cs = {d \<in> set devs. key t < key d \<and> stops (set devs) family d} \<and>
              devices (port s') = devs"
proof (induction n arbitrary: t code0 lst0 s s1 found)
  case 0
  then show ?case by simp
next
  case (Suc n)
  let ?S = "set devs"
  let ?B = "{d \<in> ?S. key t < key d \<and> stops ?S family d}"
  have lt8: "length t = 8" using len Suc.prems(1) by simp
  show ?case
  proof (cases "zero_taken ?S t 64 = LAST")
    case True
    then have "?B = {}" using greatest_if_LAST[OF _ Suc.prems(1)] by auto
    with True Suc.prems(3,4) show ?thesis
      by (simp add: enumerate_from_done del: enumerate_from.simps)
  next
    case False
    from next_target[OF Suc.prems(1) False] obtain t2 where
      t2: "t2 \<in> ?S" and lt: "key t < key t2"
      and bt: "\<forall>d\<in>?S. key t < key d \<longrightarrow> key t2 \<le> key d"
      and H2: "\<forall>p<64. disc ?S t2 p \<longrightarrow> choice (zero_taken ?S t 64) t p = rom_bit t2 p"
      by blast
    have c2: "card {d \<in> ?S. key t2 < key d} < card {d \<in> ?S. key t < key d}"
      using card_above_less[OF t2 lt] .
    then have c2': "card {d \<in> ?S. key t2 < key d} < n" using Suc.prems(2) by simp
    from sim_search_rom_family[OF len t2 c2' H2 Suc.prems(3) lt8, of upd family] obtain t' s2 where
      sr: "search_rom (sim_bus upd) family t (zero_taken ?S t 64) s1 = Some (zero_taken ?S t' 64, t', s2)"
      and t': "t' \<in> ?S" and d2: "devices (port s2) = devs" and le: "key t2 \<le> key t'"
      and st: "stops ?S family t'"
      and first: "\<forall>d\<in>?S. key t2 \<le> key d \<and> key d < key t' \<longrightarrow> \<not> stops ?S family d"
      by blast
    have lt': "key t < key t'" using lt le by simp
    have "card {d \<in> ?S. key t' < key d} < card {d \<in> ?S. key t < key d}"
      using card_above_less[OF t' lt'] .
    then have cB: "card {d \<in> ?S. key t' < key d} < n" using Suc.prems(2) by simp
    let ?B' = "{d \<in> ?S. key t' < key d \<and> stops ?S family d}"
    from Suc.IH[OF t' cB d2 sr, of "found @ [t]"] obtain cs r s' where
      e: "enumerate_from n (sim_bus upd) family t (zero_taken ?S t 64) s1 (found @ [t]) =
            Some ((found @ [t]) @ t' # cs, LAST, r, s')"
      and so: "sorted_wrt (\<lambda>x y. key x < key y) cs"
      and se: "set cs = ?B'" and d': "devices (port s') = devs"
      by blast
    have step: "enumerate_from (Suc n) (sim_bus upd) family code0 lst0 s found =
        enumerate_from n (sim_bus upd) family t (zero_taken ?S t 64) s1 (found @ [t])"
      using Suc.prems(4) False zero_taken_neq_ERROR[of ?S t]
      by (rule enumerate_from_more)
    have seq: "set (t' # cs) = ?B"
    proof (intro set_eqI iffI)
      fix d assume "d \<in> set (t' # cs)"
      then consider "d = t'" | "d \<in> set cs" by auto
      then show "d \<in> ?B"
      proof cases
        case 1
        with t' lt' st show ?thesis by simp
      next
        case 2
        with se have "d \<in> ?S" "key t' < key d" "stops ?S family d" by simp_all
        with less_trans[OF lt'] show ?thesis by simp
      qed
    next
      fix d assume d: "d \<in> ?B"
      then have dS: "d \<in> ?S" and td: "key t < key d" and sd: "stops ?S family d" by simp_all
      from bt dS td have "key t2 \<le> key d" by simp
      with first dS sd have "\<not> key d < key t'" by blast
      then have "key t' \<le> key d" by simp
      from key_le_cases[OF _ _ this] len t' dS consider "t' = d" | "key t' < key d" by auto
      then show "d \<in> set (t' # cs)"
      proof cases
        case 1
        then show ?thesis by simp
      next
        case 2
        with dS sd se show ?thesis by simp
      qed
    qed
    have so': "sorted_wrt (\<lambda>x y. key x < key y) (t' # cs)" using so se by simp
    show ?thesis
    proof (intro exI conjI)
      show "enumerate_from (Suc n) (sim_bus upd) family code0 lst0 s found =
          Some (found @ t # t' # cs, LAST, r, s')"
        using step e by simp
      show "sorted_wrt (\<lambda>x y. key x < key y) (t' # cs)" by (rule so')
      show "set (t' # cs) = {d \<in> set devs. key t < key d \<and> stops (set devs) family d}" by (rule seq)
      show "devices (port s') = devs" by (rule d')
    qed
  qed
qed

lemma enumerate_sim:
  assumes ne: "devs \<noteq> []" and len: "\<forall>d\<in>set devs. length d = 8"
    and dv: "devices (port s) = devs" and lc: "length code = 8"
    and fuel: "card (set devs) \<le> n"
  shows "\<exists>cs r s'. enumerate_roms n (sim_bus upd) family code s = Some (cs, LAST, r, s') \<and>
            sorted_wrt (\<lambda>x y. key x < key y) cs \<and>
            set cs = {d \<in> set devs. stops (set devs) family d} \<and> devices (port s') = devs"
proof -
  let ?S = "set devs"
  from first_target[OF ne, of code] obtain t0 where
    t0: "t0 \<in> ?S" and least: "\<forall>d\<in>?S. key t0 \<le> key d"
    and H0: "\<forall>p<64. disc ?S t0 p \<longrightarrow> choice FIRST code p = rom_bit t0 p"
    by blast
  have "{d \<in> ?S. key t0 < key d} \<subseteq> ?S - {t0}" by auto
  then have "card {d \<in> ?S. key t0 < key d} \<le> card (?S - {t0})" by (intro card_mono) auto
  also have "\<dots> < card ?S" using t0 by (intro card_Diff1_less) auto
  finally have c0: "card {d \<in> ?S. key t0 < key d} < n" using fuel by simp
  from sim_search_rom_family[OF len t0 c0 H0 dv lc, of upd family] obtain t s1 where
    sr: "search_rom (sim_bus upd) family code FIRST s = Some (zero_taken ?S t 64, t, s1)"
    and t: "t \<in> ?S" and d1: "devices (port s1) = devs" and le: "key t0 \<le> key t"
    and st: "stops ?S family t"
    and first: "\<forall>d\<in>?S. key t0 \<le> key d \<and> key d < key t \<longrightarrow> \<not> stops ?S family d"
    by blast
  have "{d \<in> ?S. key t < key d} \<subseteq> ?S - {t}" by auto
  then have "card {d \<in> ?S. key t < key d} \<le> card (?S - {t})" by (intro card_mono) auto
  also have "\<dots> < card ?S" using t by (intro card_Diff1_less) auto
  finally have cB: "card {d \<in> ?S. key t < key d} < n" using fuel by simp
  from enumerate_after[OF len t cB d1 sr, of "[]"] obtain cs r s' where
    e: "enumerate_from n (sim_bus upd) family code FIRST s [] = Some (t # cs, LAST, r, s')"
    and so: "sorted_wrt (\<lambda>x y. key x < key y) cs"
    and se: "set cs = {d \<in> ?S. key t < key d \<and> stops ?S family d}"
    and d': "devices (port s') = devs"
    by auto
  have seq: "set (t # cs) = {d \<in> ?S. stops ?S family d}"
  proof (intro set_eqI iffI)
    fix d assume "d \<in> set (t # cs)"
    with se t st show "d \<in> {d \<in> ?S. stops ?S family d}" by auto
  next
    fix d assume "d \<in> {d \<in> ?S. stops ?S family d}"
    then have dS: "d \<in> ?S" and sd: "stops ?S family d" by simp_all
    from least dS have "key t0 \<le> key d" by simp
    with first dS sd have "\<not> key d < key t" by blast
    then have "key t \<le> key d" by simp
    from key_le_cases[OF _ _ this] len t dS consider "t = d" | "key t < key d" by auto
    then show "d \<in> set (t # cs)"
    proof cases
      case 1
      then show ?thesis by simp
    next
      case 2
      with dS sd se show ?thesis by simp
    qed
  qed
  have so': "sorted_wrt (\<lambda>x y. key x < key y) (t # cs)" using so se by simp
  show ?thesis
  proof (intro exI conjI)
    show "enumerate_roms n (sim_bus upd) family code s = Some (t # cs, LAST, r, s')"
      using e by (simp add: enumerate_roms_def)
    show "sorted_wrt (\<lambda>x y. key x < key y) (t # cs)" by (rule so')
    show "set (t # cs) = {d \<in> set devs. stops (set devs) family d}" by (rule seq)
    show "devices (port s') = devs" by (rule d')
  qed
qed

lemma key_sorted_distinct: "sorted_wrt (\<lambda>x y. key x < key y) cs \<Longrightarrow> distinct cs"
  by (induction cs) auto

lemma key_sorted_unique:
  assumes "sorted_wrt (\<lambda>x y. key x < key y) xs" "sorted_wrt (\<lambda>x y. key x < key y) ys"
    and "set xs = set ys" and "\<forall>d\<in>set xs. length d = 8"
  shows "xs = ys"
proof -
  have "sorted_wrt (<) (map key xs)" "sorted_wrt (<) (map key ys)"
    using assms(1,2) by (simp_all add: sorted_wrt_map)
  moreover have "set (map key ys) = set (map key xs)" using assms(3) by simp
  ultimately have "map key ys = map key xs" by (rule strict_sorted_equal)
  moreover have "inj_on key (set ys \<union> set xs)"
    using assms(3,4) by (auto intro!: inj_onI key_inj)
  ultimately show ?thesis by (simp add: inj_on_map_eq_map)
qed

subsection \<open>Enumeration of the devices\<close>

lemma enumerate_empty:
  assumes "devices (port s) = []"
  shows "enumerate_roms (Suc n) (sim_bus upd) family code s =
     Some ([], ERROR, code, s\<lparr>port := (port s)\<lparr>active := [], idx := 0, mode := Command\<rparr>\<rparr>)"
proof -
  have r: "reset_bus (sim_bus upd) s =
      (False, s\<lparr>port := (port s)\<lparr>active := [], idx := 0, mode := Command\<rparr>\<rparr>)"
    using assms by (simp add: sim_bus_def sim_reset_def)
  have "search_rom (sim_bus upd) family code FIRST s =
      Some (ERROR, code, s\<lparr>port := (port s)\<lparr>active := [], idx := 0, mode := Command\<rparr>\<rparr>)"
    by (subst search_rom.simps) (simp add: r)
  then show ?thesis by (simp add: enumerate_roms_def)
qed

text \<open>
  C1, as the code has it. On a simulated bus with at least one device, all ROM codes
  distinct, and a family argument that is 0 or the family code of every device, the
  chained \<open>search_rom\<close> calls from FIRST return, one call per device, every ROM code
  exactly once, and the last call returns LAST. (Every call returns: a bound of N calls
  is enough.)
\<close>

theorem enumeration_complete:
  assumes "devs \<noteq> []" and "distinct devs" and "\<forall>d\<in>set devs. length d = 8"
    and "devices (port s) = devs" and "length code = 8"
    and "family = 0 \<or> (\<forall>d\<in>set devs. d ! 0 = family)"
    and "length devs \<le> n"
  shows "\<exists>cs r s'. enumerate_roms n (sim_bus upd) family code s = Some (cs, LAST, r, s') \<and>
           length cs = length devs \<and> distinct cs \<and> set cs = set devs"
proof -
  have "card (set devs) \<le> n" using assms(2,7) by (simp add: distinct_card)
  from enumerate_sim[OF assms(1,3,4,5) this, of upd family] obtain cs r s' where
    e: "enumerate_roms n (sim_bus upd) family code s = Some (cs, LAST, r, s')"
    and so: "sorted_wrt (\<lambda>x y. key x < key y) cs"
    and se': "set cs = {d \<in> set devs. stops (set devs) family d}"
    by blast
  have se: "set cs = set devs" using se' assms(6) by (auto simp: stops_def)
  have d: "distinct cs" using so by (rule key_sorted_distinct)
  have "length cs = card (set cs)" using d by (simp add: distinct_card)
  also have "\<dots> = length devs" using se assms(2) by (simp add: distinct_card)
  finally show ?thesis using e d se by blast
qed

theorem enumeration_complete_witness:
  "\<exists>cs r s'. enumerate_roms 2 (sim_bus crc8_bit) 0 [0, 0, 0, 0, 0, 0, 0, 0]
        \<lparr>m_crc = 0,
         port = \<lparr>devices = [[0x28, 1, 2, 3, 4, 5, 6, 0x9E], [0x10, 1, 2, 3, 4, 5, 6, 0x7B]],
                 active = [], idx = 0, mode = Idle\<rparr>\<rparr> = Some (cs, LAST, r, s') \<and>
      length cs = 2 \<and> distinct cs \<and>
      set cs = {[0x28, 1, 2, 3, 4, 5, 6, 0x9E], [0x10, 1, 2, 3, 4, 5, 6, 0x7B]}"
proof -
  let ?devs = "[[0x28, 1, 2, 3, 4, 5, 6, 0x9E], [0x10, 1, 2, 3, 4, 5, 6, 0x7B :: uint8]]"
  let ?s = "\<lparr>m_crc = 0, port = \<lparr>devices = ?devs, active = [], idx = 0, mode = Idle\<rparr>\<rparr>"
  have "?devs \<noteq> []" "distinct ?devs" "\<forall>d\<in>set ?devs. length d = 8"
    "devices (port ?s) = ?devs" "length [0 :: uint8, 0, 0, 0, 0, 0, 0, 0] = 8"
    "(0 :: uint8) = 0 \<or> (\<forall>d\<in>set ?devs. d ! 0 = 0)" "length ?devs \<le> 2"
    by simp_all
  from enumeration_complete[OF this, of crc8_bit] show ?thesis by (simp add: numeral_2_eq_2)
qed

text \<open>
  The claim as written also covers a bus without devices, where the first call returns
  ERROR, not LAST, and a family argument that some device does not carry, where that
  device is passed over: of the devices \<open>28 ..\<close> and \<open>10 ..\<close>, the enumeration with
  family \<open>0x28\<close> yields the first alone.
\<close>

theorem enumeration_incomplete:
  "enumerate_roms 1 (sim_bus crc8_bit) 0 [0, 0, 0, 0, 0, 0, 0, 0]
      \<lparr>m_crc = 0, port = \<lparr>devices = [], active = [], idx = 0, mode = Idle\<rparr>\<rparr> =
     Some ([], ERROR, [0, 0, 0, 0, 0, 0, 0, 0],
       \<lparr>m_crc = 0, port = \<lparr>devices = [], active = [], idx = 0, mode = Command\<rparr>\<rparr>) \<and>
   ERROR \<noteq> LAST \<and>
   enumerate_roms 2 (sim_bus crc8_bit) 0x28 [0, 0, 0, 0, 0, 0, 0, 0]
      \<lparr>m_crc = 0,
       port = \<lparr>devices = [[0x28, 1, 2, 3, 4, 5, 6, 0x9E], [0x10, 1, 2, 3, 4, 5, 6, 0x7B]],
               active = [], idx = 0, mode = Idle\<rparr>\<rparr> =
     Some ([[0x28, 1, 2, 3, 4, 5, 6, 0x9E]], LAST, [0x28, 1, 2, 3, 4, 5, 6, 0x9E],
       \<lparr>m_crc = 123,
        port = \<lparr>devices = [[0x28, 1, 2, 3, 4, 5, 6, 0x9E], [0x10, 1, 2, 3, 4, 5, 6, 0x7B]],
                active = [[0x28, 1, 2, 3, 4, 5, 6, 0x9E]], idx = 64, mode = Searching\<rparr>\<rparr>)"
  by code_simp

text \<open>
  C9. The codes enumerated from FIRST, and the position returned last, depend on the
  set of devices and the family argument only: not on the content of the code buffer,
  the CRC sum, the state the bus was left in (so not on an earlier enumeration), nor on
  the check function. Both enumerations return, and the devices stay on the bus.
\<close>

theorem enumeration_deterministic:
  assumes "set (devices (port s1)) = set (devices (port s2))"
    and "\<forall>d\<in>set (devices (port s1)). length d = 8"
    and "length code1 = 8" and "length code2 = 8"
    and "card (set (devices (port s1))) < n1" and "card (set (devices (port s1))) < n2"
  shows "\<exists>cs l r1 t1 r2 t2.
           enumerate_roms n1 (sim_bus upd1) family code1 s1 = Some (cs, l, r1, t1) \<and>
           enumerate_roms n2 (sim_bus upd2) family code2 s2 = Some (cs, l, r2, t2) \<and>
           devices (port t1) = devices (port s1) \<and> devices (port t2) = devices (port s2)"
proof (cases "devices (port s1) = []")
  case True
  with assms(1) have e2: "devices (port s2) = []" by simp
  from assms(5,6) obtain m1 m2 where n: "n1 = Suc m1" "n2 = Suc m2"
    by (cases n1; cases n2) auto
  show ?thesis
    unfolding n enumerate_empty[OF True] enumerate_empty[OF e2] using True e2 by simp
next
  case False
  with assms(1) have ne2: "devices (port s2) \<noteq> []" by auto
  have len2: "\<forall>d\<in>set (devices (port s2)). length d = 8" using assms(1,2) by simp
  have c1: "card (set (devices (port s1))) \<le> n1" and c2: "card (set (devices (port s2))) \<le> n2"
    using assms(1,5,6) by simp_all
  from enumerate_sim[OF False assms(2) refl assms(3) c1, of upd1 family] obtain cs r1 t1 where
    e1: "enumerate_roms n1 (sim_bus upd1) family code1 s1 = Some (cs, LAST, r1, t1)"
    and so1: "sorted_wrt (\<lambda>x y. key x < key y) cs"
    and se1: "set cs = {d \<in> set (devices (port s1)). stops (set (devices (port s1))) family d}"
    and d1: "devices (port t1) = devices (port s1)"
    by blast
  from enumerate_sim[OF ne2 len2 refl assms(4) c2, of upd2 family] obtain cs' r2 t2 where
    e2: "enumerate_roms n2 (sim_bus upd2) family code2 s2 = Some (cs', LAST, r2, t2)"
    and so2: "sorted_wrt (\<lambda>x y. key x < key y) cs'"
    and se2: "set cs' = {d \<in> set (devices (port s2)). stops (set (devices (port s2))) family d}"
    and d2: "devices (port t2) = devices (port s2)"
    by blast
  have "set cs = set cs'" using se1 se2 assms(1) by simp
  moreover have "\<forall>d\<in>set cs. length d = 8" using se1 assms(2) by simp
  ultimately have "cs = cs'"
    using so1 so2 by (intro key_sorted_unique)
  with e1 e2 d1 d2 show ?thesis by blast
qed

theorem enumeration_deterministic_witness:
  "\<exists>cs l r1 t1 r2 t2.
      enumerate_roms 3 (sim_bus crc8_bit) 0x28 [0, 0, 0, 0, 0, 0, 0, 0]
        \<lparr>m_crc = 0,
         port = \<lparr>devices = [[0x28, 1, 2, 3, 4, 5, 6, 0x9E], [0x10, 1, 2, 3, 4, 5, 6, 0x7B]],
                 active = [], idx = 0, mode = Idle\<rparr>\<rparr> = Some (cs, l, r1, t1) \<and>
      enumerate_roms 5 (sim_bus crc8_bit) 0x28 [0x28, 1, 2, 3, 4, 5, 6, 0x9E]
        \<lparr>m_crc = 9,
         port = \<lparr>devices = [[0x28, 1, 2, 3, 4, 5, 6, 0x9E], [0x10, 1, 2, 3, 4, 5, 6, 0x7B]],
                 active = [[0x28, 1, 2, 3, 4, 5, 6, 0x9E]], idx = 64, mode = Searching\<rparr>\<rparr> =
        Some (cs, l, r2, t2)"
proof -
  let ?devs = "[[0x28, 1, 2, 3, 4, 5, 6, 0x9E], [0x10, 1, 2, 3, 4, 5, 6, 0x7B :: uint8]]"
  let ?s1 = "\<lparr>m_crc = 0, port = \<lparr>devices = ?devs, active = [], idx = 0, mode = Idle\<rparr>\<rparr>"
  let ?s2 = "\<lparr>m_crc = 9, port = \<lparr>devices = ?devs, active = [[0x28, 1, 2, 3, 4, 5, 6, 0x9E]],
                idx = 64, mode = Searching\<rparr>\<rparr>"
  have "set (devices (port ?s1)) = set (devices (port ?s2))"
    "\<forall>d\<in>set (devices (port ?s1)). length d = 8"
    "length [0 :: uint8, 0, 0, 0, 0, 0, 0, 0] = 8"
    "length [0x28 :: uint8, 1, 2, 3, 4, 5, 6, 0x9E] = 8"
    "card (set (devices (port ?s1))) < 3" "card (set (devices (port ?s1))) < 5"
    by simp_all
  from enumeration_deterministic[OF this, where ?upd1.0 = crc8_bit and ?upd2.0 = crc8_bit and family = "0x28"]
  show ?thesis by blast
qed

subsection \<open>Reading the ROM of a single device\<close>

lemma sim_read_byte:
  assumes "mode (port s) = Reading" "idx (port s) = 8 * k" "k < 8" "set (active (port s)) = {d}"
  shows "\<exists>c. read_bits (sim_bus upd) 8 s = (d ! k, \<lparr>m_crc = c, port = (port s)\<lparr>idx := 8 * Suc k\<rparr>\<rparr>)"
proof -
  have "horner_sum of_bool 2 (map (\<lambda>m. \<forall>d'\<in>set (active (port s)). rom_bit d' (idx (port s) + m)) [0..<8])
      = d ! k"
  proof (rule bit_eqI)
    fix m assume "possible_bit TYPE(uint8) m"
    then have m: "m < 8" by (simp add: possible_bit_def)
    have e: "(8 * k + m) div 8 = k" "(8 * k + m) mod 8 = m" using m by simp_all
    show "bit (horner_sum of_bool 2
             (map (\<lambda>m. \<forall>d'\<in>set (active (port s)). rom_bit d' (idx (port s) + m)) [0..<8]) :: uint8) m
          = bit (d ! k) m"
      using m assms by (simp add: bit_horner_sum_bit_word_iff rom_bit_def e)
  qed
  then show ?thesis
    using assms by (simp add: sim_bus_def sim_read_def)
qed

lemma read_seq_sim:
  assumes "length d = 8"
  shows "k + n \<le> 8 \<Longrightarrow> mode (port s) = Reading \<Longrightarrow> idx (port s) = 8 * k \<Longrightarrow>
    set (active (port s)) = {d} \<Longrightarrow>
    \<exists>s'. read_seq (sim_bus upd) n s = (take n (drop k d), s')"
proof (induction n arbitrary: k s)
  case 0
  then show ?case by simp
next
  case (Suc n)
  then have k: "k < 8" by simp
  from sim_read_byte[OF Suc.prems(2,3) k Suc.prems(4), of upd] obtain c where
    r: "read_bits (sim_bus upd) 8 s = (d ! k, \<lparr>m_crc = c, port = (port s)\<lparr>idx := 8 * Suc k\<rparr>\<rparr>)"
    by blast
  let ?s1 = "\<lparr>m_crc = c, port = (port s)\<lparr>idx := 8 * Suc k\<rparr>\<rparr>"
  have "\<exists>s'. read_seq (sim_bus upd) n ?s1 = (take n (drop (Suc k) d), s')"
    using Suc.prems by (intro Suc.IH) simp_all
  then obtain s' where rs: "read_seq (sim_bus upd) n ?s1 = (take n (drop (Suc k) d), s')" by blast
  have "d ! k # take n (drop (Suc k) d) = take (Suc n) (drop k d)"
    using k assms by (simp add: Cons_nth_drop_Suc[symmetric])
  then show ?case by (simp add: r rs del: mult_Suc_right)
qed

lemma read_rom_sim:
  assumes "devices (port s) = [d]" "length d = 8" "length code = 8"
  shows "\<exists>ok s'. read_rom (sim_bus upd) code s = (ok, d, s')"
proof -
  let ?s1 = "s\<lparr>port := (port s)\<lparr>active := [d], idx := 0, mode := Command\<rparr>\<rparr>"
  let ?s2 = "s\<lparr>port := (port s)\<lparr>active := [d], idx := 0, mode := Reading\<rparr>\<rparr>"
  have r: "reset_bus (sim_bus upd) s = (True, ?s1)"
    using assms(1) by (simp add: sim_bus_def sim_reset_def)
  have w: "write_bits (sim_bus upd) READ_ROM CHARBITS ?s1 = ?s2"
    by (simp add: sim_bus_def sim_write_def CHARBITS_def READ_ROM_def SEARCH_ROM_def)
  have "\<exists>s'. read_seq (sim_bus upd) 8 (?s2\<lparr>m_crc := 0\<rparr>) = (take 8 (drop 0 d), s')"
    by (intro read_seq_sim[OF assms(2)]) simp_all
  then obtain s' where rs: "read_seq (sim_bus upd) 8 (?s2\<lparr>m_crc := 0\<rparr>) = (d, s')"
    using assms(2) by auto
  have "read_loop (sim_bus upd) 8 code 0 (?s2\<lparr>m_crc := 0\<rparr>) = (d, s')"
    using read_loop_read_seq[of 0 8 code "sim_bus upd" "?s2\<lparr>m_crc := 0\<rparr>"] assms(3)
    by (simp add: rs)
  then show ?thesis
    by (simp add: read_rom_def r w read_buf_def ROM_MAX_def)
qed

lemma no_disc_single: "\<not> disc {d} d p"
  by (auto simp: disc_def)

lemma search_rom_single:
  assumes "devices (port s) = [d]" "length d = 8" "length code = 8"
  shows "\<exists>s'. search_rom (sim_bus upd) family code FIRST s = Some (LAST, d, s')"
proof -
  have z: "zero_taken {d} d 64 = LAST"
    by (simp add: zero_taken_LAST_iff no_disc_single)
  have "\<exists>s'. search_rom (sim_bus upd) family code FIRST s = Some (zero_taken (set [d]) d 64, d, s') \<and>
             devices (port s') = [d]"
    using assms z by (intro sim_search_rom) (simp_all add: no_disc_single)
  then show ?thesis by (auto simp: z)
qed

text \<open>
  C7. On a simulated bus with exactly one device, a \<open>read_rom\<close> that succeeds (reset,
  READ_ROM, eight byte reads, CRC sum 0) leaves in the buffer the ROM code of the device,
  and one \<open>search_rom\<close> pass from FIRST returns LAST with the same code in its buffer,
  for every family argument.
\<close>

theorem read_rom_agrees_with_search:
  assumes "devices (port s) = [d]" and "devices (port s') = [d]" and "length d = 8"
    and "length code = 8" and "length code' = 8"
    and "read_rom (sim_bus upd) code s = (True, c, s1)"
  shows "c = d \<and> (\<exists>s2. search_rom (sim_bus upd') family code' FIRST s' = Some (LAST, c, s2))"
proof -
  from read_rom_sim[OF assms(1,3,4), of upd] assms(6) have "c = d" by auto
  with search_rom_single[OF assms(2,3,5), of upd' family] show ?thesis by simp
qed

theorem read_rom_agrees_with_search_witness:
  "read_rom (sim_bus crc8_bit) [0, 0, 0, 0, 0, 0, 0, 0]
     \<lparr>m_crc = 5, port = \<lparr>devices = [[0x02, 0x1C, 0xB8, 0x01, 0, 0, 0, 0xA2]], active = [], idx = 0, mode = Idle\<rparr>\<rparr>
     = (True, [0x02, 0x1C, 0xB8, 0x01, 0, 0, 0, 0xA2],
        \<lparr>m_crc = 0, port = \<lparr>devices = [[0x02, 0x1C, 0xB8, 0x01, 0, 0, 0, 0xA2]],
                              active = [[0x02, 0x1C, 0xB8, 0x01, 0, 0, 0, 0xA2]], idx = 64, mode = Reading\<rparr>\<rparr>) \<and>
   (\<exists>s2. search_rom (sim_bus crc8_bit) 0 [9, 9, 9, 9, 9, 9, 9, 9] FIRST
     \<lparr>m_crc = 5, port = \<lparr>devices = [[0x02, 0x1C, 0xB8, 0x01, 0, 0, 0, 0xA2]], active = [], idx = 0, mode = Idle\<rparr>\<rparr>
     = Some (LAST, [0x02, 0x1C, 0xB8, 0x01, 0, 0, 0, 0xA2], s2))"
proof -
  let ?d = "[0x02, 0x1C, 0xB8, 0x01, 0, 0, 0, 0xA2 :: uint8]"
  let ?s = "\<lparr>m_crc = 5, port = \<lparr>devices = [?d], active = [], idx = 0, mode = Idle\<rparr>\<rparr>"
  have h: "read_rom (sim_bus crc8_bit) [0, 0, 0, 0, 0, 0, 0, 0] ?s
     = (True, ?d, \<lparr>m_crc = 0, port = \<lparr>devices = [?d], active = [?d], idx = 64, mode = Reading\<rparr>\<rparr>)"
    by code_simp
  have "devices (port ?s) = [?d]" "devices (port ?s) = [?d]" "length ?d = 8"
    "length [0 :: uint8, 0, 0, 0, 0, 0, 0, 0] = 8" "length [9 :: uint8, 9, 9, 9, 9, 9, 9, 9] = 8"
    by simp_all
  from read_rom_agrees_with_search[OF this h, of crc8_bit 0] h show ?thesis by simp
qed

subsection \<open>What one pass reads, writes and returns\<close>

lemma traced_flat_step:
  assumes "flat_step (traced D) code p (l, nx, t, bs) = Inr (l', nx', t', bs')"
  shows "\<exists>v b. responses (log_of t') = responses (log_of t) @ [v] \<and> bs' = bs @ [b] \<and> v \<noteq> 3 \<and>
           nx' = (if v = 0 \<and> \<not> b then of_nat p else nx) \<and>
           (v = 0 \<and> int p < sint l \<longrightarrow> b = rom_bit code p) \<and>
           (l' = l \<or> (l' = FIRST \<and> int p = sint l)) \<and>
           (v \<in> {0, 1, 2} \<longrightarrow> writes (log_of t') = writes (log_of t) @ [if b then 1 else 0])"
proof -
  have t: "t = retrace (untrace t) (log_of t)" by (simp add: retrace_untrace)
  obtain v s1 where r: "read_bits D 2 (untrace t) = (v, s1)" by (cases "read_bits D 2 (untrace t)")
  have rd: "read_bits (traced D) 2 t = (v, retrace s1 (log_of t @ [ERead 2 v]))"
    using traced_read[of D 2 "untrace t" "log_of t"] r by (simp add: retrace_untrace)
  show ?thesis
    using assms
    by (auto simp: flat_step_def rd traced_write split: if_splits)
qed

lemma traced_flat_fault:
  "flat (traced D) code n v0 = Inl t' \<Longrightarrow> 3 \<in> set (responses (log_of t'))"
proof (induction n)
  case 0
  then show ?case by simp
next
  case (Suc n)
  show ?case
  proof (cases "flat (traced D) code n v0")
    case (Inl a)
    with Suc show ?thesis by simp
  next
    case (Inr v)
    obtain l nx t bs where v: "v = (l, nx, t, bs)" by (cases v) auto
    have tt: "t = retrace (untrace t) (log_of t)" by (simp add: retrace_untrace)
    obtain w s1 where r: "read_bits D 2 (untrace t) = (w, s1)" by (cases "read_bits D 2 (untrace t)")
    have rd: "read_bits (traced D) 2 t = (w, retrace s1 (log_of t @ [ERead 2 w]))"
      using traced_read[of D 2 "untrace t" "log_of t"] r by (simp add: retrace_untrace)
    from Suc.prems Inr v have "flat_step (traced D) code n (l, nx, t, bs) = Inl t'" by simp
    then show ?thesis
      by (auto simp: flat_step_def rd split: if_splits)
  qed
qed

lemma traced_flat:
  "flat (traced D) code n (lst, LAST, retrace s [], []) = Inr (l, nx, t, bs) \<Longrightarrow>
   length (responses (log_of t)) = n \<and> length bs = n \<and> 3 \<notin> set (responses (log_of t)) \<and>
   (l = lst \<or> (l = FIRST \<and> sint lst < int n)) \<and>
   ((nx = LAST \<and> (\<forall>p<n. \<not> (responses (log_of t) ! p = 0 \<and> \<not> bs ! p))) \<or>
    (\<exists>q<n. nx = of_nat q \<and> responses (log_of t) ! q = 0 \<and> \<not> bs ! q \<and>
       (\<forall>p. q < p \<and> p < n \<longrightarrow> \<not> (responses (log_of t) ! p = 0 \<and> \<not> bs ! p)))) \<and>
   (\<forall>p<n. responses (log_of t) ! p = 0 \<and> int p < sint lst \<longrightarrow> bs ! p = rom_bit code p) \<and>
   (set (responses (log_of t)) \<subseteq> {0, 1, 2} \<longrightarrow>
      writes (log_of t) = map (\<lambda>b. if b then 1 else 0) bs)"
proof (induction n arbitrary: l nx t bs)
  case 0
  then show ?case by auto
next
  case (Suc n)
  from Suc.prems obtain l1 nx1 t1 bs1 where
    f: "flat (traced D) code n (lst, LAST, retrace s [], []) = Inr (l1, nx1, t1, bs1)"
    and st: "flat_step (traced D) code n (l1, nx1, t1, bs1) = Inr (l, nx, t, bs)"
    by (auto split: sum.splits)
  let ?rs1 = "responses (log_of t1)"
  from Suc.IH[OF f] have
    len: "length ?rs1 = n" "length bs1 = n" and nf: "3 \<notin> set ?rs1"
    and l1: "l1 = lst \<or> (l1 = FIRST \<and> sint lst < int n)"
    and nx1: "(nx1 = LAST \<and> (\<forall>p<n. \<not> (?rs1 ! p = 0 \<and> \<not> bs1 ! p))) \<or>
      (\<exists>q<n. nx1 = of_nat q \<and> ?rs1 ! q = 0 \<and> \<not> bs1 ! q \<and>
         (\<forall>p. q < p \<and> p < n \<longrightarrow> \<not> (?rs1 ! p = 0 \<and> \<not> bs1 ! p)))"
    and cb: "\<forall>p<n. ?rs1 ! p = 0 \<and> int p < sint lst \<longrightarrow> bs1 ! p = rom_bit code p"
    and wr: "set ?rs1 \<subseteq> {0, 1, 2} \<longrightarrow> writes (log_of t1) = map (\<lambda>b. if b then 1 else 0) bs1"
    by auto
  from traced_flat_step[OF st] obtain v b where
    rs: "responses (log_of t) = ?rs1 @ [v]" and bs: "bs = bs1 @ [b]" and v3: "v \<noteq> 3"
    and nx: "nx = (if v = 0 \<and> \<not> b then of_nat n else nx1)"
    and vb: "v = 0 \<and> int n < sint l1 \<longrightarrow> b = rom_bit code n"
    and l: "l = l1 \<or> (l = FIRST \<and> int n = sint l1)"
    and w: "v \<in> {0, 1, 2} \<longrightarrow> writes (log_of t) = writes (log_of t1) @ [if b then 1 else 0]"
    by blast
  have nth_old: "(?rs1 @ [x]) ! p = ?rs1 ! p" "(bs1 @ [y]) ! p = bs1 ! p" if "p < n" for p x y
    using that len by (simp_all add: nth_append)
  have nth_new: "(?rs1 @ [x]) ! n = x" "(bs1 @ [y]) ! n = y" for x y
    using len by (simp_all add: nth_append)
  have c1: "length (responses (log_of t)) = Suc n \<and> length bs = Suc n \<and>
      3 \<notin> set (responses (log_of t))"
    using rs bs len nf v3 by simp
  have c2: "l = lst \<or> (l = FIRST \<and> sint lst < int (Suc n))"
    using l l1 by (auto simp: sint_FIRST)
  have c3: "(nx = LAST \<and> (\<forall>p<Suc n. \<not> (responses (log_of t) ! p = 0 \<and> \<not> bs ! p))) \<or>
    (\<exists>q<Suc n. nx = of_nat q \<and> responses (log_of t) ! q = 0 \<and> \<not> bs ! q \<and>
       (\<forall>p. q < p \<and> p < Suc n \<longrightarrow> \<not> (responses (log_of t) ! p = 0 \<and> \<not> bs ! p)))"
  proof (cases "v = 0 \<and> \<not> b")
    case True
    then have "nx = of_nat n" using nx by simp
    with True show ?thesis
      unfolding rs bs by (intro disjI2 exI[of _ n]) (auto simp: nth_new)
  next
    case False
    then have e: "nx = nx1" using nx by auto
    from nx1 show ?thesis
    proof
      assume a: "nx1 = LAST \<and> (\<forall>p<n. \<not> (?rs1 ! p = 0 \<and> \<not> bs1 ! p))"
      with False e show ?thesis
        unfolding rs bs by (intro disjI1) (auto simp: less_Suc_eq nth_old nth_new)
    next
      assume "\<exists>q<n. nx1 = of_nat q \<and> ?rs1 ! q = 0 \<and> \<not> bs1 ! q \<and>
         (\<forall>p. q < p \<and> p < n \<longrightarrow> \<not> (?rs1 ! p = 0 \<and> \<not> bs1 ! p))"
      then obtain q where q: "q < n" "nx1 = of_nat q" "?rs1 ! q = 0" "\<not> bs1 ! q"
        "\<forall>p. q < p \<and> p < n \<longrightarrow> \<not> (?rs1 ! p = 0 \<and> \<not> bs1 ! p)"
        by blast
      with False e show ?thesis
        unfolding rs bs by (intro disjI2 exI[of _ q]) (auto simp: less_Suc_eq nth_old nth_new)
    qed
  qed
  have c4: "\<forall>p<Suc n. responses (log_of t) ! p = 0 \<and> int p < sint lst \<longrightarrow> bs ! p = rom_bit code p"
  proof (intro allI impI)
    fix p assume p: "p < Suc n" and h: "responses (log_of t) ! p = 0 \<and> int p < sint lst"
    show "bs ! p = rom_bit code p"
    proof (cases "p = n")
      case True
      with h have "v = 0" "int n < sint lst" unfolding rs by (simp_all add: nth_new)
      moreover from this l1 have "l1 = lst" by auto
      ultimately show ?thesis using vb True unfolding bs by (simp add: nth_new)
    next
      case False
      with p have pn: "p < n" by simp
      with h cb show ?thesis unfolding rs bs by (simp add: nth_old)
    qed
  qed
  have c5: "set (responses (log_of t)) \<subseteq> {0, 1, 2} \<longrightarrow>
      writes (log_of t) = map (\<lambda>b. if b then 1 else 0) bs"
    using w wr unfolding rs bs by auto
  from c1 c2 c3 c4 c5 show ?case by blast
qed

lemma traced_search:
  assumes s: "search (traced D) code lst (retrace s []) = (r, code', t)"
    and len: "length code = 8"
    and nf: "3 \<notin> set (responses (log_of t))"
  shows "\<exists>l bs. flat (traced D) code 64 (lst, LAST, retrace s [], []) = Inr (l, r, t, bs) \<and>
           length bs = 64 \<and> (\<forall>p<64. rom_bit code' p = bs ! p)"
proof (cases "flat (traced D) code 64 (lst, LAST, retrace s [], [])")
  case (Inl t')
  with search_flat[of "traced D" code lst "retrace s []"] s have "t' = t" by auto
  with traced_flat_fault[OF Inl] nf show ?thesis by simp
next
  case (Inr v)
  obtain l nx t' bs where v: "v = (l, nx, t', bs)" by (cases v) auto
  from search_flat[of "traced D" code lst "retrace s []"] Inr v s
  have e: "r = nx" "code' = store_bytes 8 bs code" "t = t'" by auto
  from traced_flat[OF Inr[unfolded v]] have lb: "length bs = 64" by simp
  have "\<forall>p<64. rom_bit code' p = bs ! p"
    using rom_bit_store_bytes[OF len lb] e by simp
  with Inr v e lb show ?thesis by simp
qed

text \<open>
  C2, as the code has it. In a pass without bus fault, 64 pairs are read, and the
  position returned is the deepest (numerically largest) position at which a
  discrepancy (pair \<open>0b00\<close>) was answered with the 0-branch (bit 0 stored in the code
  buffer), or LAST when there is none: the candidate is overwritten at every such
  position, whether or not a shallower one has been recorded.
\<close>

theorem search_returns_deepest_zero_branch:
  assumes "search (traced D) code lst (retrace s []) = (r, code', t)"
    and "length code = 8"
    and "3 \<notin> set (responses (log_of t))"
  shows "length (responses (log_of t)) = 64 \<and>
         ((r = LAST \<and> (\<forall>p<64. \<not> (responses (log_of t) ! p = 0 \<and> \<not> rom_bit code' p))) \<or>
          (\<exists>q<64. r = of_nat q \<and> responses (log_of t) ! q = 0 \<and> \<not> rom_bit code' q \<and>
             (\<forall>p. q < p \<and> p < 64 \<longrightarrow> \<not> (responses (log_of t) ! p = 0 \<and> \<not> rom_bit code' p))))"
proof -
  from traced_search[OF assms] obtain l bs where
    f: "flat (traced D) code 64 (lst, LAST, retrace s [], []) = Inr (l, r, t, bs)"
    and rb: "\<forall>p<64. rom_bit code' p = bs ! p"
    by blast
  from traced_flat[OF f] have
    a: "length (responses (log_of t)) = 64"
    and b: "(r = LAST \<and> (\<forall>p<64. \<not> (responses (log_of t) ! p = 0 \<and> \<not> bs ! p))) \<or>
      (\<exists>q<64. r = of_nat q \<and> responses (log_of t) ! q = 0 \<and> \<not> bs ! q \<and>
         (\<forall>p. q < p \<and> p < 64 \<longrightarrow> \<not> (responses (log_of t) ! p = 0 \<and> \<not> bs ! p)))"
    by blast+
  from b have "(r = LAST \<and> (\<forall>p<64. \<not> (responses (log_of t) ! p = 0 \<and> \<not> rom_bit code' p))) \<or>
          (\<exists>q<64. r = of_nat q \<and> responses (log_of t) ! q = 0 \<and> \<not> rom_bit code' q \<and>
             (\<forall>p. q < p \<and> p < 64 \<longrightarrow> \<not> (responses (log_of t) ! p = 0 \<and> \<not> rom_bit code' p)))"
  proof
    assume "r = LAST \<and> (\<forall>p<64. \<not> (responses (log_of t) ! p = 0 \<and> \<not> bs ! p))"
    with rb show ?thesis by simp
  next
    assume "\<exists>q<64. r = of_nat q \<and> responses (log_of t) ! q = 0 \<and> \<not> bs ! q \<and>
         (\<forall>p. q < p \<and> p < 64 \<longrightarrow> \<not> (responses (log_of t) ! p = 0 \<and> \<not> bs ! p))"
    then obtain q where "q < 64" "r = of_nat q" "responses (log_of t) ! q = 0" "\<not> bs ! q"
      "\<forall>p. q < p \<and> p < 64 \<longrightarrow> \<not> (responses (log_of t) ! p = 0 \<and> \<not> bs ! p)"
      by blast
    with rb show ?thesis by (intro disjI2 exI[of _ q]) simp
  qed
  with a show ?thesis by simp
qed

theorem search_returns_deepest_zero_branch_witness:
  "length (responses (log_of (snd (snd
      (search (traced (sim_bus crc8_bit)) rom_00 FIRST (retrace three_devices [])))))) = 64"
proof -
  let ?R = "search (traced (sim_bus crc8_bit)) rom_00 FIRST (retrace three_devices [])"
  have a: "?R = (fst ?R, fst (snd ?R), snd (snd ?R))" by simp
  have b: "length rom_00 = 8" by simp
  have c: "3 \<notin> set (responses (log_of (snd (snd ?R))))" by code_simp
  from search_returns_deepest_zero_branch[OF a b c] show ?thesis by blast
qed

text \<open>
  The claim as written fails on the bus with the three devices \<open>00\<close>, \<open>02\<close> and \<open>01\<close>
  (first byte): the first pass meets discrepancies at positions 0 and 1, takes the
  0-branch at both (the code found is \<open>00\<close>), and returns 1, the deeper of the two,
  not 0.
\<close>

theorem search_returns_not_shallowest:
  "fst (search (traced (sim_bus crc8_bit)) rom_00 FIRST (retrace three_devices [])) = 1 \<and>
   fst (snd (search (traced (sim_bus crc8_bit)) rom_00 FIRST (retrace three_devices []))) = rom_00 \<and>
   take 2 (responses (log_of (snd (snd
      (search (traced (sim_bus crc8_bit)) rom_00 FIRST (retrace three_devices [])))))) = [0, 0] \<and>
   3 \<notin> set (responses (log_of (snd (snd
      (search (traced (sim_bus crc8_bit)) rom_00 FIRST (retrace three_devices []))))))"
  by code_simp

subsection \<open>The loop variables at a position of the pass\<close>





















subsection \<open>A bus fault under a family filter\<close>

lemma search_idle_line:
  assumes "port s = []"
  shows "search replay_bus code lst s = (ERROR, code, s)"
proof -
  have r: "read_bits replay_bus 2 s = (3, s)"
    using assms by (simp add: replay_bus_def mask_eq_exp_minus_1)
  have "search_bit replay_bus code 0 0 (0, LAST, lst, 0, s) = Inl s"
    by (simp add: search_bit_def r)
  then have "for_j replay_bus code 0 0 (0, LAST, lst, 0, s) = Inl s"
    by (simp add: for_j.simps[of _ _ 0 0])
  then show ?thesis
    by (simp add: search_def for_i.simps[of _ 0])
qed

lemma search_rom_idle_line:
  assumes "search_rom D family code lst s = Some y"
  shows "D = replay_bus \<longrightarrow> port s = [] \<longrightarrow> family \<noteq> 0 \<longrightarrow> code ! 0 \<noteq> family \<longrightarrow> False"
proof (rule search_rom.raw_induct[where
      P = "\<lambda>D family code lst s y.
             D = replay_bus \<longrightarrow> port s = [] \<longrightarrow> family \<noteq> 0 \<longrightarrow> code ! 0 \<noteq> family \<longrightarrow> False",
      OF _ assms],
    goal_cases)
  case (1 search_rom D family code lst s y)
  show ?case
  proof (intro impI)
    assume D: "D = replay_bus" and p: "port s = []" and f: "family \<noteq> 0" and c: "code ! 0 \<noteq> family"
    have r: "reset_bus replay_bus s = (True, s)" by (simp add: replay_bus_def)
    have w: "write_bits replay_bus SEARCH_ROM CHARBITS s = s" by (simp add: replay_bus_def)
    have "search_rom replay_bus family code ERROR s = Some y"
      using 1(2) f c by (simp add: D r w search_idle_line[OF p] ERROR_def LAST_64)
    from 1(1)[OF this] p f c show False by simp
  qed
qed

lemma search_rom_diverges:
  "family \<noteq> 0 \<Longrightarrow> code ! 0 \<noteq> family \<Longrightarrow>
   search_rom replay_bus family code lst \<lparr>m_crc = c, port = []\<rparr> = None"
  using search_rom_idle_line[of replay_bus family code lst "\<lparr>m_crc = c, port = []\<rparr>"]
  by (cases "search_rom replay_bus family code lst \<lparr>m_crc = c, port = []\<rparr>") auto

lemma search_rom_after_glitch:
  "search replay_bus rom_00 FIRST \<lparr>m_crc = 0, port = 3 # device_28_pairs\<rparr> =
     (ERROR, rom_00, \<lparr>m_crc = 0, port = device_28_pairs\<rparr>) \<and>
   search_rom replay_bus 0x10 rom_00 FIRST \<lparr>m_crc = 0, port = 3 # device_28_pairs\<rparr> =
     Some (LAST, [0x28, 1, 2, 3, 4, 5, 6, 0x9E], \<lparr>m_crc = 0, port = []\<rparr>) \<and>
   LAST \<noteq> ERROR"
  by code_simp

text \<open>
  C4 at concrete inputs. One device \<open>28 01 02 03 04 05 06 9E\<close> is on the line and the
  very first pair is read as \<open>0b11\<close> (a glitch): the search pass reports the fault,
  but \<open>search_rom\<close> with family \<open>0x10\<close> does not return it. ERROR is not LAST, the
  family is not 0 and the first byte of the buffer is not the family, so the loop runs
  again, from cursor ERROR = FIRST, and the call returns LAST. On a line where resets
  see a presence pulse and every pair reads \<open>0b11\<close>, the same call does not return.
\<close>

theorem search_rom_swallows_fault:
  "search replay_bus rom_00 FIRST \<lparr>m_crc = 0, port = 3 # device_28_pairs\<rparr> =
     (ERROR, rom_00, \<lparr>m_crc = 0, port = device_28_pairs\<rparr>) \<and>
   search_rom replay_bus 0x10 rom_00 FIRST \<lparr>m_crc = 0, port = 3 # device_28_pairs\<rparr> =
     Some (LAST, [0x28, 1, 2, 3, 4, 5, 6, 0x9E], \<lparr>m_crc = 0, port = []\<rparr>) \<and>
   LAST \<noteq> ERROR \<and>
   search_rom replay_bus 0x10 rom_00 FIRST \<lparr>m_crc = 0, port = []\<rparr> = None"
  using search_rom_after_glitch search_rom_diverges[of "0x10" rom_00 FIRST 0] by simp

end
